theory Spec2Isabelle
  imports Main "HOL-Library.Word"
begin

unbundle bit_operations_syntax

section \<open>Download accounting (retr.c, lines 468-500)\<close>

text \<open>
  The three fields of the global \<^verbatim>\<open>opt\<close> that the accounting functions use.
  \<^verbatim>\<open>VERY_LONG_TYPE\<close> is declared outside retr.c as an unsigned integer type; its
  width is the parameter \<open>'a\<close>. \<^verbatim>\<open>opt.quota\<close> and the argument of
  \<^verbatim>\<open>downloaded_increase\<close> (an \<^verbatim>\<open>unsigned long\<close>) are held at the value they
  have after C's conversion to \<^verbatim>\<open>VERY_LONG_TYPE\<close>, the type in which the sum and
  the comparisons are computed. The int \<^verbatim>\<open>opt.downloaded_overflow\<close> only ever
  holds 0 or 1 and is a bool.
\<close>

record (overloaded) ('a::len) accounting =
  quota :: "'a word"
  downloaded :: "'a word"
  downloaded_overflow :: bool

definition downloaded_increase :: "'a::len word \<Rightarrow> 'a accounting \<Rightarrow> 'a accounting" where
  "downloaded_increase by_how_much opt =
     (if downloaded_overflow opt then opt
      else
        let old = downloaded opt;
            opt1 = opt\<lparr>downloaded := downloaded opt + by_how_much\<rparr>
        in if downloaded opt1 < old
           then opt1\<lparr>downloaded_overflow := True, downloaded := NOT 0\<rparr>
           else opt1)"

text \<open>A sequence of calls \<^verbatim>\<open>downloaded_increase (b)\<close>, first element first.\<close>

fun downloaded_increase_all :: "'a::len word list \<Rightarrow> 'a accounting \<Rightarrow> 'a accounting" where
  "downloaded_increase_all [] opt = opt"
| "downloaded_increase_all (b # bs) opt = downloaded_increase_all bs (downloaded_increase b opt)"

text \<open>The C function returns an int: 0, or the value of the comparison (0 or 1).\<close>

definition downloaded_exceeds_quota :: "'a::len accounting \<Rightarrow> int" where
  "downloaded_exceeds_quota opt =
     (if quota opt = 0 then 0
      else if downloaded_overflow opt then 0
      else if downloaded opt > quota opt then 1 else 0)"

section \<open>Waiting between retrievals (retr.c, lines 508-531)\<close>






section \<open>Reading a connection into a file (retr.c, lines 78-147)\<close>

text \<open>
  \<^verbatim>\<open>struct rbuf\<close> is declared outside retr.c. \<^verbatim>\<open>get_contents\<close> reads its
  descriptor (\<^verbatim>\<open>RBUF_FD\<close>) and, in a build with \<^verbatim>\<open>HAVE_SSL\<close>, whether its
  \<^verbatim>\<open>ssl\<close> pointer is set; \<open>buffer_left\<close> is the number of bytes the buffer
  still holds.
\<close>

record rbuf =
  rbuf_fd :: int
  rbuf_ssl :: bool
  buffer_left :: nat

text \<open>
  Modelled from the spec: \<^verbatim>\<open>rbuf_flush\<close> is not defined in retr.c. The spec has the
  bytes a read buffer holds drained into the output file until the buffer is empty:
  a call moves as many of the buffered bytes as fit \<open>maxsize\<close> and returns their
  number, 0 once the buffer is empty.
\<close>

definition rbuf_flush :: "rbuf \<Rightarrow> nat \<Rightarrow> nat \<times> rbuf" where
  "rbuf_flush rb maxsize =
     (if buffer_left rb = 0 then (0, rb)
      else let howmuch = min (buffer_left rb) maxsize
           in (howmuch, rb\<lparr>buffer_left := buffer_left rb - howmuch\<rparr>))"

text \<open>
  The calls \<^verbatim>\<open>get_contents\<close> makes outside retr.c, each with its arguments and
  with the value it returned: \<open>Rbuf_flush r\<close>, \<open>Fwrite_checked n written\<close>,
  \<open>Fwrite n written\<close>, \<open>Ferror err\<close>, \<open>Iread fd amount r\<close>,
  \<open>Ssl_iread amount r\<close>. \<^verbatim>\<open>fwrite\<close> is called at two places: \<open>Fwrite_checked\<close> is
  the call of line 95, whose result is compared with the number of bytes asked for;
  \<open>Fwrite\<close> is the call of line 128, whose result is dropped. The trace of a run
  lists the calls oldest first.
\<close>

datatype io_event =
    Progress_create int int
  | Progress_update int
  | Progress_finish
  | Rbuf_flush nat
  | Fwrite_checked nat nat
  | Fwrite nat nat
  | Fflush
  | Ferror bool
  | Iread int int int
  | Ssl_iread int int

text \<open>
  The stream \<^verbatim>\<open>fp\<close>, the connection and the static buffer \<^verbatim>\<open>c\<close> are the outside
  world \<open>'w\<close>; the library calls are arbitrary functions on it. \<open>fwrite env n\<close> is
  \<^verbatim>\<open>fwrite (c, sizeof (char), n, fp)\<close> and returns the number of bytes written;
  \<open>iread env fd amount\<close> and \<open>ssl_iread env amount\<close> return the int the C
  functions return. \<^verbatim>\<open>opt.verbose\<close> and the compile-time switch \<^verbatim>\<open>HAVE_SSL\<close>
  are read only.
\<close>

record 'w io_env =
  opt_verbose :: bool
  HAVE_SSL :: bool
  fwrite :: "nat \<Rightarrow> 'w \<Rightarrow> nat \<times> 'w"
  fflush :: "'w \<Rightarrow> 'w"
  ferror :: "'w \<Rightarrow> bool"
  iread :: "int \<Rightarrow> int \<Rightarrow> 'w \<Rightarrow> int \<times> 'w"
  ssl_iread :: "int \<Rightarrow> 'w \<Rightarrow> int \<times> 'w"

text \<open>
  The variables of \<^verbatim>\<open>get_contents\<close>: \<^verbatim>\<open>*len\<close>, \<^verbatim>\<open>res\<close>, the buffer behind
  \<^verbatim>\<open>rbuf\<close> (\<open>None\<close> for a null pointer), the world and the trace. The C
  \<^verbatim>\<open>long\<close> and \<^verbatim>\<open>int\<close> values are unbounded ints: signed overflow of
  \<^verbatim>\<open>*len += res\<close> is undefined in C and outside the model.
\<close>

record 'w gc_state =
  len :: int
  res :: int
  rbuf :: "rbuf option"
  world :: 'w
  trace :: "io_event list"

text \<open>
  How a run ends: the function returns a code; or, in a build with \<^verbatim>\<open>HAVE_SSL\<close>,
  \<^verbatim>\<open>rbuf->ssl\<close> is read through a null \<^verbatim>\<open>rbuf\<close>; or the fuel that bounds the
  number of reads is used up while the loop would go on.
\<close>

datatype gc_exit = Return int | Null_deref | Out_of_fuel

definition log_event :: "io_event \<Rightarrow> 'w gc_state \<Rightarrow> 'w gc_state" where
  "log_event ev st = st\<lparr>trace := trace st @ [ev]\<rparr>"

text \<open>
  The macro \<^verbatim>\<open>MIN\<close>. Its one use compares \<^verbatim>\<open>expected - *len\<close> with
  \<^verbatim>\<open>sizeof (c)\<close>; the loop condition makes the difference positive there, so C's
  conversion of it to \<^verbatim>\<open>size_t\<close> keeps its value.
\<close>

definition MIN_of :: "int \<Rightarrow> int \<Rightarrow> int" where
  "MIN_of i j = (if i \<le> j then i else j)"

text \<open>What one pass through the body of a loop does: go on, \<^verbatim>\<open>break\<close>, or leave the function.\<close>

datatype 'a step = Continue 'a | Break 'a | Returned gc_exit 'a

text \<open>The body of the loop that empties the read buffer (lines 93-101), its condition included.\<close>

definition flush_chunk :: "'w io_env \<Rightarrow> rbuf \<Rightarrow> 'w gc_state \<Rightarrow> (rbuf \<times> 'w gc_state) step" where
  "flush_chunk env rb st =
     (let (r, rb1) = rbuf_flush rb 8192;
          st1 = log_event (Rbuf_flush r) (st\<lparr>res := int r, rbuf := Some rb1\<rparr>)
      in if r \<noteq> 0 then
           (let (written, w1) = fwrite env r (world st1);
                st2 = log_event (Fwrite_checked r written) (st1\<lparr>world := w1\<rparr>)
            in if written < r then Returned (Return (- 2)) (rb1, st2)
               else
                 (let st3 = (if opt_verbose env then log_event (Progress_update (int r)) st2 else st2)
                  in Continue (rb1, st3\<lparr>len := len st3 + int r\<rparr>)))
         else Break (rb1, st1))"

function flush_loop ::
  "'w io_env \<Rightarrow> rbuf \<Rightarrow> bool \<Rightarrow> 'w gc_state \<Rightarrow> gc_exit option \<times> bool \<times> 'w gc_state" where
  "flush_loop env rb need_flush st =
     (case flush_chunk env rb st of
        Continue (rb1, st1) \<Rightarrow> flush_loop env rb1 True st1
      | Break (rb1, st1) \<Rightarrow> (None, need_flush, st1)
      | Returned e (rb1, st1) \<Rightarrow> (Some e, need_flush, st1))"
  by pat_completeness auto
termination
  by (relation "measure (\<lambda>(env, rb, need_flush, st). buffer_left rb)")
    (auto simp: flush_chunk_def rbuf_flush_def Let_def split: if_splits prod.splits)

declare flush_loop.simps [simp del]

text \<open>
  Lines 90-106: the buffer is emptied when \<^verbatim>\<open>rbuf\<close> is not null and belongs to
  \<^verbatim>\<open>fd\<close>. \<open>Some e\<close> is a \<^verbatim>\<open>return\<close> inside the block.
\<close>

definition flush_phase :: "'w io_env \<Rightarrow> int \<Rightarrow> 'w gc_state \<Rightarrow> gc_exit option \<times> 'w gc_state" where
  "flush_phase env fd st =
     (case rbuf st of
        None \<Rightarrow> (None, st)
      | Some rb \<Rightarrow>
          if rbuf_fd rb = fd then
            (let (returned, need_flush, st1) = flush_loop env rb False st
             in case returned of
                  Some e \<Rightarrow> (Some e, st1)
                | None \<Rightarrow>
                    (let st2 = (if need_flush
                                then log_event Fflush (st1\<lparr>world := fflush env (world st1)\<rparr>)
                                else st1);
                         err = ferror env (world st2);
                         st3 = log_event (Ferror err) st2
                     in if err then (Some (Return (- 2)), st3) else (None, st3)))
          else (None, st))"

text \<open>The body of the main loop (lines 114-140).\<close>

definition read_chunk ::
  "'w io_env \<Rightarrow> int \<Rightarrow> int \<Rightarrow> bool \<Rightarrow> 'w gc_state \<Rightarrow> 'w gc_state step" where
  "read_chunk env fd expected use_expected st =
     (let amount_to_read = (if use_expected then MIN_of (expected - len st) 8192 else 8192)
      in if HAVE_SSL env \<and> rbuf st = None then Returned Null_deref st
         else
           (let ssl = (HAVE_SSL env \<and> (case rbuf st of None \<Rightarrow> False | Some rb \<Rightarrow> rbuf_ssl rb));
                (r, w1) = (if ssl then ssl_iread env amount_to_read (world st)
                           else iread env fd amount_to_read (world st));
                st1 = log_event (if ssl then Ssl_iread amount_to_read r else Iread fd amount_to_read r)
                        (st\<lparr>res := r, world := w1\<rparr>)
            in if r > 0 then
                 (let (written, w2) = fwrite env (nat r) (world st1);
                      st2 = log_event (Fwrite (nat r) written) (st1\<lparr>world := w2\<rparr>);
                      st3 = log_event Fflush (st2\<lparr>world := fflush env (world st2)\<rparr>);
                      err = ferror env (world st3);
                      st4 = log_event (Ferror err) st3
                  in if err then Returned (Return (- 2)) st4
                     else
                       (let st5 = (if opt_verbose env then log_event (Progress_update r) st4 else st4)
                        in Continue (st5\<lparr>len := len st5 + r\<rparr>)))
               else Break st1))"

text \<open>
  The main loop (line 112). The connection may deliver data for ever, so the number of
  passes is bounded by fuel: with the condition true and no fuel left the run ends
  \<open>Out_of_fuel\<close>. \<open>None\<close> is the loop left by its condition or by \<^verbatim>\<open>break\<close>.
\<close>

fun main_loop ::
  "nat \<Rightarrow> 'w io_env \<Rightarrow> int \<Rightarrow> int \<Rightarrow> bool \<Rightarrow> 'w gc_state \<Rightarrow> gc_exit option \<times> 'w gc_state" where
  "main_loop 0 env fd expected use_expected st =
     (if \<not> use_expected \<or> len st < expected then (Some Out_of_fuel, st) else (None, st))"
| "main_loop (Suc fuel) env fd expected use_expected st =
     (if \<not> use_expected \<or> len st < expected then
        (case read_chunk env fd expected use_expected st of
           Continue st1 \<Rightarrow> main_loop fuel env fd expected use_expected st1
         | Break st1 \<Rightarrow> (None, st1)
         | Returned e st1 \<Rightarrow> (Some e, st1))
      else (None, st))"

text \<open>
  \<^verbatim>\<open>get_contents (fd, fp, len, restval, expected, rbuf, use_expected)\<close>. The result
  is how the run ended and the final state, whose \<open>len\<close> is \<^verbatim>\<open>*len\<close>.
\<close>

definition get_contents ::
  "nat \<Rightarrow> 'w io_env \<Rightarrow> int \<Rightarrow> int \<Rightarrow> int \<Rightarrow> rbuf option \<Rightarrow> bool \<Rightarrow> 'w \<Rightarrow> gc_exit \<times> 'w gc_state" where
  "get_contents fuel env fd restval expected rbuf0 use_expected w =
     (let st0 = \<lparr>len = restval, res = 0, rbuf = rbuf0, world = w, trace = []\<rparr>;
          st1 = (if opt_verbose env then log_event (Progress_create restval expected) st0 else st0)
      in case flush_phase env fd st1 of
           (Some e, st2) \<Rightarrow> (e, st2)
         | (None, st2) \<Rightarrow>
             (case main_loop fuel env fd expected use_expected st2 of
                (Some e, st3) \<Rightarrow> (e, st3)
              | (None, st3) \<Rightarrow>
                  (let st4 = (if res st3 < - 1 then st3\<lparr>res := - 1\<rparr> else st3);
                       st5 = (if opt_verbose env then log_event Progress_finish st4 else st4)
                   in (Return (res st5), st5))))"

text \<open>
  Collaborators to run the model on. The world of \<open>counting_io\<close> is the number of
  reads made so far: the first \<open>n\<close> reads deliver 10 bytes each, every later read
  returns \<open>final\<close>, and a write fails once more than \<open>good\<close> reads have been made.
\<close>

definition counting_io :: "bool \<Rightarrow> nat \<Rightarrow> int \<Rightarrow> nat \<Rightarrow> nat io_env" where
  "counting_io verbose n final good =
     \<lparr>opt_verbose = verbose, HAVE_SSL = False,
      fwrite = (\<lambda>k w. (if w \<le> good then k else 0, w)),
      fflush = (\<lambda>w. w),
      ferror = (\<lambda>w. good < w),
      iread = (\<lambda>fd amount w. (if w < n then 10 else final, Suc w)),
      ssl_iread = (\<lambda>amount w. (final, Suc w))\<rparr>"

text \<open>
  Reading a trace: the value a read returned; whether an event is a write that
  \<^verbatim>\<open>get_contents\<close> found to have failed (a short \<^verbatim>\<open>fwrite\<close> at line 95, where the
  result is compared; an error indicator that \<^verbatim>\<open>ferror\<close> reported set); whether it
  is a short \<^verbatim>\<open>fwrite\<close> at line 128, where the result is dropped.
\<close>

fun read_result :: "io_event \<Rightarrow> int option" where
  "read_result (Iread fd amount r) = Some r"
| "read_result (Ssl_iread amount r) = Some r"
| "read_result ev = None"

fun write_failed :: "io_event \<Rightarrow> bool" where
  "write_failed (Fwrite_checked n written) = (written < n)"
| "write_failed (Ferror err) = err"
| "write_failed ev = False"

fun short_write :: "io_event \<Rightarrow> bool" where
  "short_write (Fwrite n written) = (written < n)"
| "short_write ev = False"

text \<open>
  The shapes a trace can have: at the head of a loop no failed write, no
  \<^verbatim>\<open>progress_finish\<close> and no read without data has been seen; a run stopped by a
  failed write has it as its last event; a loop left by \<^verbatim>\<open>break\<close> has the read that
  ended it last, its value in \<open>res\<close>.
\<close>

definition at_loop_head :: "io_event list \<Rightarrow> bool" where
  "at_loop_head tr =
     (Progress_finish \<notin> set tr
      \<and> (\<forall>ev \<in> set tr. \<not> write_failed ev \<and> (\<forall>k. read_result ev = Some k \<longrightarrow> 0 < k)))"

definition stopped_on_failure :: "io_event list \<Rightarrow> bool" where
  "stopped_on_failure tr = (tr \<noteq> [] \<and> write_failed (last tr) \<and> at_loop_head (butlast tr))"

definition stopped_on_read :: "'w gc_state \<Rightarrow> bool" where
  "stopped_on_read st =
     (trace st \<noteq> [] \<and> at_loop_head (butlast (trace st))
      \<and> read_result (last (trace st)) = Some (res st) \<and> res st \<le> 0)"

definition no_reads :: "io_event list \<Rightarrow> bool" where
  "no_reads tr = (\<forall>ev \<in> set tr. read_result ev = None)"

definition no_short_writes :: "io_event list \<Rightarrow> bool" where
  "no_short_writes tr = (\<forall>ev \<in> set tr. \<not> short_write ev)"

definition finished :: "'w io_env \<Rightarrow> gc_exit \<Rightarrow> 'w gc_state \<Rightarrow> 'w gc_state \<Rightarrow> bool" where
  "finished env ex st3 st =
     (ex = Return (if res st3 < - 1 then - 1 else res st3)
      \<and> trace st = trace st3 @ (if opt_verbose env then [Progress_finish] else [])
      \<and> (at_loop_head (trace st3) \<or> stopped_on_read st3))"

section \<open>Retrieving one URL (retr.c, lines 187-407)\<close>

text \<open>
  \<^verbatim>\<open>struct url\<close>, \<^verbatim>\<open>enum url_scheme\<close> and \<^verbatim>\<open>uerr_t\<close> are declared outside retr.c.
  Of a parsed URL the file reads the fields \<^verbatim>\<open>url\<close>, \<^verbatim>\<open>scheme\<close> and
  \<^verbatim>\<open>host\<close>. \<open>SCHEME_OTHER\<close> is any scheme the file does not name, and
  \<open>Other_uerr n\<close> any status it does not name. The copying and freeing of
  strings, parsed URLs and the set of visited URLs (\<^verbatim>\<open>xstrdup\<close>, \<^verbatim>\<open>xfree\<close>,
  \<^verbatim>\<open>url_free\<close>, \<^verbatim>\<open>string_set_free\<close>) and the log messages are left out.
\<close>

datatype url_scheme = SCHEME_HTTP | SCHEME_HTTPS | SCHEME_FTP | SCHEME_OTHER

record struct_url =
  u_url :: string
  u_scheme :: url_scheme
  u_host :: string

datatype uerr_t =
    NOCONERROR | URLERROR | PROXERR | NEWLOCATION | WRONGCODE | RETROK | QUOTEXC
  | Other_uerr nat

text \<open>
  An output parameter: a null pointer, or a pointer to a cell with its content. A
  \<^verbatim>\<open>char *\<close> value is a \<open>string option\<close>, \<open>None\<close> for \<^verbatim>\<open>NULL\<close>.
\<close>

datatype 'a out_ptr = Null_ptr | Ptr 'a

definition store :: "'a \<Rightarrow> 'a out_ptr \<Rightarrow> 'a out_ptr" where
  "store v p = (case p of Null_ptr \<Rightarrow> Null_ptr | Ptr old \<Rightarrow> Ptr v)"

text \<open>
  The calls \<^verbatim>\<open>retrieve_url\<close> makes to the protocol loops and the registries, oldest
  first in the state: \<open>Http_loop_call u proxy_url\<close>, \<open>Ftp_loop_call u recursive\<close>
  with the value \<^verbatim>\<open>opt.recursive\<close> has during the call,
  \<open>Register_download url local_file\<close>, \<open>Register_html url local_file\<close>.
\<close>

datatype call =
    Http_loop_call struct_url "struct_url option"
  | Ftp_loop_call struct_url bool
  | Register_download string string
  | Register_html string string

text \<open>
  The state the functions of this part change: the global
  \<^verbatim>\<open>global_download_count\<close> (an int; its overflow is undefined in C and outside
  the model), the world outside retr.c, and the calls made so far.
\<close>

record 'w rstate =
  global_download_count :: int
  outside :: 'w
  calls :: "call list"

text \<open>
  What retr.c uses and does not define. The options are read only
  (\<^verbatim>\<open>opt.recursive\<close> is set to 0 around \<^verbatim>\<open>ftp_loop\<close> inside a redirection and
  restored after it; the value in force is handed to \<open>ftp_loop\<close>). The parser, the
  proxy lookup and \<^verbatim>\<open>uri_merge\<close> are functions of their arguments;
  \<open>no_proxy_match host\<close> is \<^verbatim>\<open>no_proxy_match (host, opt.no_proxy)\<close>. The protocol
  loops, the registries and the collaborators of \<^verbatim>\<open>retrieve_from_file\<close> change the
  outside world. \<open>http_loop env u refurl dt proxy_url count\<close> is given the value of
  \<^verbatim>\<open>*dt\<close> and of \<^verbatim>\<open>global_download_count\<close>, and returns the status, what it
  stored in \<^verbatim>\<open>mynewloc\<close> and \<^verbatim>\<open>local_file\<close>, and the new \<^verbatim>\<open>*dt\<close>.
  \<^verbatim>\<open>recursive_retrieve\<close> retrieves further URLs and may change all of the state.
  \<open>TEXTHTML\<close> and \<open>RETROKF\<close> are the flag bits of \<^verbatim>\<open>*dt\<close>;
  \<open>indeterminate\<close> is the content of an int that was never assigned.
\<close>

record 'w retr_env =
  SSL_BUILD :: bool
  opt_use_proxy :: bool
  opt_referer :: "string option"
  opt_recursive :: bool
  opt_delete_after :: bool
  url_parse :: "string \<Rightarrow> int + struct_url"
  getproxy :: "url_scheme \<Rightarrow> string option"
  no_proxy_match :: "string \<Rightarrow> bool"
  uri_merge :: "string \<Rightarrow> string \<Rightarrow> string"
  http_loop :: "struct_url \<Rightarrow> string option \<Rightarrow> 32 word \<Rightarrow> struct_url option \<Rightarrow> int \<Rightarrow> 'w
                  \<Rightarrow> (uerr_t \<times> string option \<times> string option \<times> 32 word) \<times> 'w"
  ftp_loop :: "struct_url \<Rightarrow> 32 word \<Rightarrow> bool \<Rightarrow> 'w \<Rightarrow> (uerr_t \<times> 32 word) \<times> 'w"
  register_download :: "string \<Rightarrow> string \<Rightarrow> 'w \<Rightarrow> 'w"
  register_html :: "string \<Rightarrow> string \<Rightarrow> 'w \<Rightarrow> 'w"
  TEXTHTML :: "32 word"
  RETROKF :: "32 word"
  indeterminate :: "32 word"
  get_urls_html :: "string \<Rightarrow> 'w \<Rightarrow> string list \<times> 'w"
  get_urls_file :: "string \<Rightarrow> 'w \<Rightarrow> string list \<times> 'w"
  recursive_reset :: "'w \<Rightarrow> 'w"
  recursive_retrieve :: "string option \<Rightarrow> string \<Rightarrow> 'w rstate \<Rightarrow> uerr_t \<times> 'w rstate"
  file_exists_p :: "string \<Rightarrow> 'w \<Rightarrow> bool"
  unlink :: "string \<Rightarrow> 'w \<Rightarrow> 'w"

text \<open>
  The \<^verbatim>\<open>return\<close> statement a call leaves through, by what it follows: the failed
  parse of the URL (line 224), the missing proxy (250), the failed parse of the proxy
  URL (262), the proxy that is not HTTP (271), the failed parse of the new location
  (340), the redirection cycle (369), the end of the function (406).
\<close>

datatype return_site =
    At_parse_error | At_no_proxy | At_proxy_parse | At_proxy_scheme
  | At_newloc_parse | At_cycle | At_end

text \<open>
  How a call ends: it returns a status at a site; or \<^verbatim>\<open>assert (mynewloc != NULL)\<close>
  fails; or the fuel that bounds the number of protocol loops run is used up.
\<close>

datatype r_exit = Returns uerr_t return_site | Assert_failed | No_fuel

record 'w retr_result =
  rr_exit :: r_exit
  rr_file :: "string option out_ptr"
  rr_newloc :: "string option out_ptr"
  rr_dt :: "32 word"
  rr_state :: "'w rstate"

text \<open>The macro \<^verbatim>\<open>USE_PROXY_P\<close>.\<close>

definition USE_PROXY_P :: "'w retr_env \<Rightarrow> struct_url \<Rightarrow> bool" where
  "USE_PROXY_P env u =
     (opt_use_proxy env \<and> getproxy env (u_scheme u) \<noteq> None \<and> no_proxy_match env (u_host u))"

text \<open>
  Lines 236-308: the choice of the protocol loop and its call. \<open>Inl\<close> is a
  \<^verbatim>\<open>return\<close> inside the block; \<open>Inr\<close> carries \<^verbatim>\<open>result\<close>, \<^verbatim>\<open>mynewloc\<close>,
  \<^verbatim>\<open>local_file\<close> and \<^verbatim>\<open>*dt\<close> as the block leaves them. \<open>redirected\<close> says
  whether \<^verbatim>\<open>redirections\<close> is non-null.
\<close>

definition call_http_loop ::
  "'w retr_env \<Rightarrow> struct_url \<Rightarrow> string option \<Rightarrow> 32 word \<Rightarrow> struct_url option \<Rightarrow> 'w rstate
     \<Rightarrow> (uerr_t \<times> string option \<times> string option \<times> 32 word) \<times> 'w rstate" where
  "call_http_loop env u refurl dt proxy_url s =
     (let (r, w) = http_loop env u refurl dt proxy_url (global_download_count s) (outside s)
      in (r, s\<lparr>outside := w, calls := calls s @ [Http_loop_call u proxy_url]\<rparr>))"

definition dispatch ::
  "'w retr_env \<Rightarrow> struct_url \<Rightarrow> bool \<Rightarrow> string option \<Rightarrow> 32 word \<Rightarrow> 'w rstate
     \<Rightarrow> (uerr_t \<times> return_site)
        + ((uerr_t \<times> string option \<times> string option \<times> 32 word) \<times> 'w rstate)" where
  "dispatch env u redirected refurl dt s =
     (if USE_PROXY_P env u then
        (case getproxy env (u_scheme u) of
           None \<Rightarrow> Inl (PROXERR, At_no_proxy)
         | Some proxy \<Rightarrow>
             (case url_parse env proxy of
                Inl up_error_code \<Rightarrow> Inl (PROXERR, At_proxy_parse)
              | Inr proxy_url \<Rightarrow>
                  if u_scheme proxy_url \<noteq> SCHEME_HTTP then Inl (PROXERR, At_proxy_scheme)
                  else Inr (call_http_loop env u refurl dt (Some proxy_url) s)))
      else if u_scheme u = SCHEME_HTTP \<or> (SSL_BUILD env \<and> u_scheme u = SCHEME_HTTPS) then
        Inr (call_http_loop env u refurl dt None s)
      else if u_scheme u = SCHEME_FTP then
        (let recursive = (if redirected then False else opt_recursive env);
             ((result, dt1), w) = ftp_loop env u dt recursive (outside s)
         in Inr ((result, None, None, dt1),
                 s\<lparr>outside := w, calls := calls s @ [Ftp_loop_call u recursive]\<rparr>))
      else Inr ((NOCONERROR, None, None, dt), s))"

text \<open>Lines 380-388: a complete download is registered, an HTML one twice.\<close>

definition register :: "'w retr_env \<Rightarrow> string \<Rightarrow> string option \<Rightarrow> 32 word \<Rightarrow> 'w rstate \<Rightarrow> 'w rstate" where
  "register env url_str local_file dt s =
     (case local_file of
        None \<Rightarrow> s
      | Some lf \<Rightarrow>
          if dt AND RETROKF env \<noteq> 0 then
            (let s1 = s\<lparr>outside := register_download env url_str lf (outside s),
                        calls := calls s @ [Register_download url_str lf]\<rparr>
             in if dt AND TEXTHTML env \<noteq> 0
                then s1\<lparr>outside := register_html env url_str lf (outside s1),
                        calls := calls s1 @ [Register_html url_str lf]\<rparr>
                else s1)
          else s)"

text \<open>
  The code from the label \<^verbatim>\<open>redirected\<close> (line 230) to the end. Every pass runs
  one protocol loop and takes one unit of fuel; \<^verbatim>\<open>goto redirected\<close> is the
  recursive call. The arguments after the environment are the caller's \<^verbatim>\<open>file\<close>
  and \<^verbatim>\<open>newloc\<close>, \<^verbatim>\<open>refurl\<close>, and the variables \<^verbatim>\<open>url\<close>, \<^verbatim>\<open>u\<close>,
  \<^verbatim>\<open>redirections\<close> (\<open>None\<close> for the null pointer) and \<^verbatim>\<open>*dt\<close>.
\<close>

fun retrieve_loop ::
  "nat \<Rightarrow> 'w retr_env \<Rightarrow> string option out_ptr \<Rightarrow> string option out_ptr \<Rightarrow> string option
     \<Rightarrow> string \<Rightarrow> struct_url \<Rightarrow> string set option \<Rightarrow> 32 word \<Rightarrow> 'w rstate \<Rightarrow> 'w retr_result" where
  "retrieve_loop 0 env file newloc refurl url_str u redirections dt s =
     \<lparr>rr_exit = No_fuel, rr_file = file, rr_newloc = newloc, rr_dt = dt, rr_state = s\<rparr>"
| "retrieve_loop (Suc fuel) env file newloc refurl url_str u redirections dt s =
     (case dispatch env u (redirections \<noteq> None) refurl dt s of
        Inl (code, site) \<Rightarrow>
          \<lparr>rr_exit = Returns code site, rr_file = file, rr_newloc = newloc, rr_dt = dt,
           rr_state = s\<rparr>
      | Inr ((result, mynewloc, local_file, dt1), s1) \<Rightarrow>
          if result = NEWLOCATION then
            (case mynewloc of
               None \<Rightarrow>
                 \<lparr>rr_exit = Assert_failed, rr_file = file, rr_newloc = newloc, rr_dt = dt1,
                  rr_state = s1\<rparr>
             | Some location \<Rightarrow>
                 (case url_parse env (uri_merge env url_str location) of
                    Inl up_error_code \<Rightarrow>
                      \<lparr>rr_exit = Returns result At_newloc_parse, rr_file = file,
                       rr_newloc = newloc, rr_dt = dt1, rr_state = s1\<rparr>
                  | Inr newloc_struct \<Rightarrow>
                      (let visited = (case redirections of
                                        None \<Rightarrow> {u_url u}
                                      | Some set_so_far \<Rightarrow> set_so_far)
                       in if u_url newloc_struct \<in> visited then
                            \<lparr>rr_exit = Returns WRONGCODE At_cycle, rr_file = file,
                             rr_newloc = newloc, rr_dt = dt1, rr_state = s1\<rparr>
                          else
                            retrieve_loop fuel env file newloc refurl (u_url newloc_struct)
                              newloc_struct (Some (insert (u_url newloc_struct) visited))
                              dt1 s1)))
          else
            (let s2 = register env url_str local_file dt1 s1
             in \<lparr>rr_exit = Returns result At_end,
                 rr_file = store local_file file,
                 rr_newloc = store (Some url_str) newloc,
                 rr_dt = dt1,
                 rr_state = s2\<lparr>global_download_count := global_download_count s2 + 1\<rparr>\<rparr>))"

text \<open>
  \<^verbatim>\<open>retrieve_url (origurl, file, newloc, refurl, dt)\<close>. \<open>dt\<close> is \<open>None\<close> for a
  null pointer, which makes the function use its own \<^verbatim>\<open>dummy\<close>; \<open>rr_dt\<close> is the
  final content of the cell used.
\<close>

definition retrieve_url ::
  "nat \<Rightarrow> 'w retr_env \<Rightarrow> string \<Rightarrow> string option out_ptr \<Rightarrow> string option out_ptr
     \<Rightarrow> string option \<Rightarrow> 32 word option \<Rightarrow> 'w rstate \<Rightarrow> 'w retr_result" where
  "retrieve_url fuel env origurl file newloc refurl dt s =
     (let dt0 = (case dt of None \<Rightarrow> indeterminate env | Some v \<Rightarrow> v);
          newloc1 = store None newloc;
          file1 = store None file
      in case url_parse env origurl of
           Inl up_error_code \<Rightarrow>
             \<lparr>rr_exit = Returns URLERROR At_parse_error, rr_file = file1, rr_newloc = newloc1,
              rr_dt = dt0, rr_state = s\<rparr>
         | Inr u \<Rightarrow>
             retrieve_loop fuel env file1 newloc1
               (case refurl of None \<Rightarrow> opt_referer env | Some r \<Rightarrow> Some r)
               origurl u None dt0 s)"

text \<open>The number of protocol loops among the calls of a state.\<close>

fun is_loop_call :: "call \<Rightarrow> bool" where
  "is_loop_call (Http_loop_call u proxy_url) = True"
| "is_loop_call (Ftp_loop_call u recursive) = True"
| "is_loop_call c = False"

definition loop_calls :: "'w rstate \<Rightarrow> nat" where
  "loop_calls s = length (filter is_loop_call (calls s))"

text \<open>The URLs of a redirection cycle: \<open>A\<close> leads to \<open>B\<close> and \<open>B\<close> back to \<open>A\<close>.\<close>

definition there_and_back :: "string \<Rightarrow> string option" where
  "there_and_back = [''http://a/'' \<mapsto> ''http://b/'', ''http://b/'' \<mapsto> ''http://a/'']"

section \<open>Retrieving the URLs of a file (retr.c, lines 414-458)\<close>

text \<open>
  The protocol loops add to \<^verbatim>\<open>opt.downloaded\<close> through
  \<^verbatim>\<open>downloaded_increase\<close>, so for \<^verbatim>\<open>retrieve_from_file\<close> the outside world is a
  pair: the accounting fields of \<^verbatim>\<open>opt\<close>, which the quota test reads between two
  URLs, and the rest.

  How a call ends: it returns \<^verbatim>\<open>status\<close>, or a \<^verbatim>\<open>retrieve_url\<close> it made did not
  return. \<open>rf_count\<close> is \<^verbatim>\<open>*count\<close>; \<open>rf_attempted\<close> lists the URLs the loop has
  handed to \<^verbatim>\<open>retrieve_url\<close>, oldest first.
\<close>

datatype rf_exit = Rf_returns uerr_t | Rf_assert_failed | Rf_no_fuel

record 'w rf_result =
  rf_exit :: rf_exit
  rf_count :: int
  rf_attempted :: "string list"
  rf_state :: "'w rstate"

text \<open>
  The \<^verbatim>\<open>for\<close> loop of lines 425-452 from the element \<^verbatim>\<open>cur_url\<close> on, with the
  values of \<^verbatim>\<open>status\<close> and \<^verbatim>\<open>*count\<close>. \<^verbatim>\<open>break\<close> leaves the loop without
  running its step \<^verbatim>\<open>cur_url = cur_url->next, ++*count\<close>. The cells
  \<^verbatim>\<open>filename\<close> and \<^verbatim>\<open>new_file\<close> are assigned by \<^verbatim>\<open>retrieve_url\<close> before it
  reads them; \<^verbatim>\<open>dt\<close> starts indeterminate, and its last assignment
  \<^verbatim>\<open>dt &= ~RETROKF\<close> is never read.
\<close>

fun url_loop ::
  "nat \<Rightarrow> ('a::len accounting \<times> 'x) retr_env \<Rightarrow> string list \<Rightarrow> uerr_t \<Rightarrow> int \<Rightarrow> string list
     \<Rightarrow> ('a accounting \<times> 'x) rstate \<Rightarrow> ('a accounting \<times> 'x) rf_result" where
  "url_loop fuel env [] status count attempted s =
     \<lparr>rf_exit = Rf_returns status, rf_count = count, rf_attempted = attempted, rf_state = s\<rparr>"
| "url_loop fuel env (cur_url # rest) status count attempted s =
     (if downloaded_exceeds_quota (fst (outside s)) \<noteq> 0 then
        \<lparr>rf_exit = Rf_returns QUOTEXC, rf_count = count, rf_attempted = attempted, rf_state = s\<rparr>
      else
        (let r = retrieve_url fuel env cur_url (Ptr None) (Ptr None) None
                   (Some (indeterminate env)) s
         in case rr_exit r of
              Assert_failed \<Rightarrow>
                \<lparr>rf_exit = Rf_assert_failed, rf_count = count,
                 rf_attempted = attempted @ [cur_url], rf_state = rr_state r\<rparr>
            | No_fuel \<Rightarrow>
                \<lparr>rf_exit = Rf_no_fuel, rf_count = count,
                 rf_attempted = attempted @ [cur_url], rf_state = rr_state r\<rparr>
            | Returns status1 site \<Rightarrow>
                (let filename = (case rr_file r of Null_ptr \<Rightarrow> None | Ptr f \<Rightarrow> f);
                     new_file = (case rr_newloc r of Null_ptr \<Rightarrow> None | Ptr n \<Rightarrow> n);
                     (status2, s2) =
                       (if opt_recursive env \<and> status1 = RETROK \<and> rr_dt r AND TEXTHTML env \<noteq> 0
                        then recursive_retrieve env filename
                               (case new_file of None \<Rightarrow> cur_url | Some n \<Rightarrow> n) (rr_state r)
                        else (status1, rr_state r));
                     s3 = (case filename of
                             None \<Rightarrow> s2
                           | Some f \<Rightarrow>
                               if opt_delete_after env \<and> file_exists_p env f (outside s2)
                               then s2\<lparr>outside := unlink env f (outside s2)\<rparr>
                               else s2)
                 in url_loop fuel env rest status2 (count + 1) (attempted @ [cur_url]) s3)))"

text \<open>The list of URLs read from the file (line 420).\<close>

definition url_list_of ::
  "'w retr_env \<Rightarrow> string \<Rightarrow> bool \<Rightarrow> 'w rstate \<Rightarrow> string list \<times> 'w" where
  "url_list_of env file html s =
     (if html then get_urls_html env file (outside s) else get_urls_file env file (outside s))"

text \<open>
  \<^verbatim>\<open>retrieve_from_file (file, html, count)\<close>. Every \<^verbatim>\<open>retrieve_url\<close> it makes may
  run as many protocol loops as the fuel allows.
\<close>

definition retrieve_from_file ::
  "nat \<Rightarrow> ('a::len accounting \<times> 'x) retr_env \<Rightarrow> string \<Rightarrow> bool \<Rightarrow> ('a accounting \<times> 'x) rstate
     \<Rightarrow> ('a accounting \<times> 'x) rf_result" where
  "retrieve_from_file fuel env file html s =
     (let (url_list, w1) = url_list_of env file html s;
          s1 = s\<lparr>outside := recursive_reset env w1\<rparr>
      in url_loop fuel env url_list RETROK 0 [] s1)"

text \<open>
  Collaborators to run the model on. A URL parses unless it is \<open>''bad''\<close>; no proxy
  is used; \<open>http_loop\<close> answers a URL that \<open>redirects\<close> maps to a location with
  \<open>NEWLOCATION\<close> and that location, and every other URL with \<open>RETROK\<close>, a local
  file and the flag \<open>RETROKF\<close>; each of its calls downloads 100 bytes and is
  counted in the second component of the world. The file lists \<open>urls\<close>.
\<close>

definition scripted_env ::
  "(string \<Rightarrow> string option) \<Rightarrow> string list \<Rightarrow> (64 accounting \<times> nat) retr_env" where
  "scripted_env redirects urls =
     \<lparr>SSL_BUILD = False, opt_use_proxy = False, opt_referer = None, opt_recursive = False,
      opt_delete_after = False,
      url_parse = (\<lambda>str. if str = ''bad'' then Inl 1
                          else Inr \<lparr>u_url = str, u_scheme = SCHEME_HTTP, u_host = ''host''\<rparr>),
      getproxy = (\<lambda>scheme. None),
      no_proxy_match = (\<lambda>host. True),
      uri_merge = (\<lambda>base location. location),
      http_loop = (\<lambda>u refurl dt proxy_url count w.
                     ((case redirects (u_url u) of
                         Some location \<Rightarrow> (NEWLOCATION, Some location, None, dt)
                       | None \<Rightarrow> (RETROK, None, Some ''index.html'', 2)),
                      (downloaded_increase 100 (fst w), Suc (snd w)))),
      ftp_loop = (\<lambda>u dt recursive w. ((RETROK, dt), w)),
      register_download = (\<lambda>url_str local_file w. w),
      register_html = (\<lambda>url_str local_file w. w),
      TEXTHTML = 1, RETROKF = 2, indeterminate = 0,
      get_urls_html = (\<lambda>file w. (urls, w)),
      get_urls_file = (\<lambda>file w. (urls, w)),
      recursive_reset = (\<lambda>w. w),
      recursive_retrieve = (\<lambda>filename url_str s. (RETROK, s)),
      file_exists_p = (\<lambda>filename w. False),
      unlink = (\<lambda>filename w. w)\<rparr>"

definition start_state :: "64 word \<Rightarrow> 64 word \<Rightarrow> (64 accounting \<times> nat) rstate" where
  "start_state limit done =
     \<lparr>global_download_count = 0,
      outside = (\<lparr>quota = limit, downloaded = done, downloaded_overflow = False\<rparr>, 0),
      calls = []\<rparr>"

section \<open>Properties of the download accounting\<close>

lemma downloaded_increase_latched:
  "downloaded_overflow opt \<Longrightarrow> downloaded_increase b opt = opt"
  by (simp add: downloaded_increase_def)

lemma downloaded_increase_mono:
  "downloaded opt \<le> downloaded (downloaded_increase b opt)"
  by (simp add: downloaded_increase_def Let_def not_less)

lemma downloaded_increase_keeps_flag:
  "downloaded_overflow opt \<Longrightarrow> downloaded_overflow (downloaded_increase b opt)"
  by (simp add: downloaded_increase_def)

lemma downloaded_increase_quota:
  "quota (downloaded_increase b opt) = quota opt"
  by (simp add: downloaded_increase_def Let_def)

lemma downloaded_increase_max:
  "\<not> downloaded_overflow opt \<Longrightarrow> downloaded_overflow (downloaded_increase b opt) \<Longrightarrow>
   downloaded (downloaded_increase b opt) = - 1"
  by (simp add: downloaded_increase_def Let_def split: if_splits)

lemma downloaded_increase_all_latched:
  "downloaded_overflow opt \<Longrightarrow> downloaded_increase_all bs opt = opt"
  by (induction bs) (simp_all add: downloaded_increase_latched)

lemma downloaded_increase_all_append:
  "downloaded_increase_all (xs @ ys) opt =
   downloaded_increase_all ys (downloaded_increase_all xs opt)"
  by (induction xs arbitrary: opt) simp_all

lemma downloaded_increase_all_mono:
  "downloaded opt \<le> downloaded (downloaded_increase_all bs opt)"
proof (induction bs arbitrary: opt)
  case Nil
  show ?case by simp
next
  case (Cons b bs)
  have "downloaded opt \<le> downloaded (downloaded_increase b opt)"
    by (rule downloaded_increase_mono)
  also have "\<dots> \<le> downloaded (downloaded_increase_all bs (downloaded_increase b opt))"
    by (rule Cons.IH)
  finally show ?case by simp
qed

lemma downloaded_increase_all_max:
  "\<not> downloaded_overflow opt \<Longrightarrow> downloaded_overflow (downloaded_increase_all bs opt) \<Longrightarrow>
   downloaded (downloaded_increase_all bs opt) = - 1"
proof (induction bs arbitrary: opt)
  case Nil
  then show ?case by simp
next
  case (Cons b bs)
  show ?case
  proof (cases "downloaded_overflow (downloaded_increase b opt)")
    case True
    then have "downloaded_increase_all bs (downloaded_increase b opt) = downloaded_increase b opt"
      by (rule downloaded_increase_all_latched)
    with True Cons.prems(1) show ?thesis
      by (simp add: downloaded_increase_max)
  next
    case False
    with Cons show ?thesis by simp
  qed
qed

text \<open>
  C6. Along every sequence of calls the counter never decreases. A call latches the
  overflow flag exactly when the flag is still clear and the new value is numerically
  less than the old one, which is exactly when the true sum does not fit the type; a
  call that leaves the flag clear adds exactly its argument. From the call that
  latches the flag on, the counter is the maximum value of its type, and no later
  call changes the counter, the flag or anything else.
\<close>

theorem downloaded_increase_monotone_until_latched:
  fixes opt :: "'a::len accounting"
  shows "downloaded (downloaded_increase_all xs opt)
           \<le> downloaded (downloaded_increase_all (xs @ ys) opt)
       \<and> downloaded_overflow (downloaded_increase b opt)
           = (downloaded_overflow opt \<or> downloaded opt + b < downloaded opt)
       \<and> (downloaded opt + b < downloaded opt)
           = (2 ^ LENGTH('a) \<le> unat (downloaded opt) + unat b)
       \<and> (\<not> downloaded_overflow (downloaded_increase b opt) \<longrightarrow>
            unat (downloaded (downloaded_increase b opt)) = unat (downloaded opt) + unat b)
       \<and> (\<not> downloaded_overflow opt \<and> downloaded_overflow (downloaded_increase_all xs opt) \<longrightarrow>
            downloaded (downloaded_increase_all xs opt) = - 1)
       \<and> (downloaded_overflow (downloaded_increase_all xs opt) \<longrightarrow>
            downloaded_increase_all (xs @ ys) opt = downloaded_increase_all xs opt)"
proof -
  have wrap: "(downloaded opt + b < downloaded opt)
                = (2 ^ LENGTH('a) \<le> unat (downloaded opt) + unat b)"
    using no_olen_add_nat [of "downloaded opt" b] by (simp add: not_le [symmetric])
  have exact: "\<not> downloaded_overflow (downloaded_increase b opt) \<Longrightarrow>
      unat (downloaded (downloaded_increase b opt)) = unat (downloaded opt) + unat b"
    using unat_plus_simple [of "downloaded opt" b]
    by (auto simp: downloaded_increase_def Let_def not_less split: if_splits)
  show ?thesis
    using wrap exact
    by (simp add: downloaded_increase_all_append downloaded_increase_all_mono
        downloaded_increase_all_max downloaded_increase_all_latched)
      (simp add: downloaded_increase_def Let_def)
qed

theorem downloaded_increase_monotone_until_latched_witness:
  "downloaded (downloaded_increase_all [3, 10]
       \<lparr>quota = 0, downloaded = 18446744073709551610 :: 64 word, downloaded_overflow = False\<rparr>)
     = 18446744073709551615
   \<and> downloaded_overflow (downloaded_increase_all [3, 10]
       \<lparr>quota = 0, downloaded = 18446744073709551610 :: 64 word, downloaded_overflow = False\<rparr>)
   \<and> downloaded_increase_all ([3, 10] @ [1, 2])
       \<lparr>quota = 0, downloaded = 18446744073709551610 :: 64 word, downloaded_overflow = False\<rparr>
     = downloaded_increase_all [3, 10]
       \<lparr>quota = 0, downloaded = 18446744073709551610 :: 64 word, downloaded_overflow = False\<rparr>"
  using downloaded_increase_monotone_until_latched
    [where opt = "\<lparr>quota = 0, downloaded = 18446744073709551610 :: 64 word, downloaded_overflow = False\<rparr>"
       and b = 10 and xs = "[3, 10]" and ys = "[1, 2]"]
  by (simp add: downloaded_increase_def Let_def)

text \<open>
  C7. The quota test answers 0 whenever no quota is set, and 0 whenever the overflow
  flag is latched, whatever the counter holds; with a quota set and the flag clear it
  answers non-zero exactly when the counter is strictly greater than the quota.
\<close>

theorem downloaded_exceeds_quota_strict:
  "(quota opt = 0 \<longrightarrow> downloaded_exceeds_quota opt = 0)
   \<and> (downloaded_overflow opt \<longrightarrow> downloaded_exceeds_quota opt = 0)
   \<and> (quota opt \<noteq> 0 \<and> \<not> downloaded_overflow opt \<longrightarrow>
        (downloaded_exceeds_quota opt \<noteq> 0) = (quota opt < downloaded opt))"
  by (simp add: downloaded_exceeds_quota_def)

theorem downloaded_exceeds_quota_strict_witness:
  "downloaded_exceeds_quota \<lparr>quota = 0, downloaded = 7 :: 64 word, downloaded_overflow = False\<rparr> = 0
   \<and> downloaded_exceeds_quota \<lparr>quota = 100, downloaded = - 1 :: 64 word, downloaded_overflow = True\<rparr> = 0
   \<and> downloaded_exceeds_quota \<lparr>quota = 100, downloaded = 100 :: 64 word, downloaded_overflow = False\<rparr> = 0
   \<and> downloaded_exceeds_quota \<lparr>quota = 100, downloaded = 101 :: 64 word, downloaded_overflow = False\<rparr> \<noteq> 0"
  using
    downloaded_exceeds_quota_strict
      [of "\<lparr>quota = 0, downloaded = 7 :: 64 word, downloaded_overflow = False\<rparr>"]
    downloaded_exceeds_quota_strict
      [of "\<lparr>quota = 100, downloaded = - 1 :: 64 word, downloaded_overflow = True\<rparr>"]
    downloaded_exceeds_quota_strict
      [of "\<lparr>quota = 100, downloaded = 100 :: 64 word, downloaded_overflow = False\<rparr>"]
    downloaded_exceeds_quota_strict
      [of "\<lparr>quota = 100, downloaded = 101 :: 64 word, downloaded_overflow = False\<rparr>"]
  by simp

section \<open>Properties of the wait between retrievals\<close>






section \<open>Properties of get_contents\<close>

lemma flush_chunk_no_reads:
  "no_reads (trace st) \<Longrightarrow>
   (case flush_chunk env rb st of
      Continue (rb1, st1) \<Rightarrow> no_reads (trace st1)
    | Break (rb1, st1) \<Rightarrow> no_reads (trace st1)
    | Returned e (rb1, st1) \<Rightarrow> no_reads (trace st1))"
  by (auto simp: flush_chunk_def Let_def log_event_def no_reads_def split: prod.splits)

lemma flush_chunk_shape:
  "at_loop_head (trace st) \<Longrightarrow>
   (case flush_chunk env rb st of
      Continue (rb1, st1) \<Rightarrow> at_loop_head (trace st1) \<and> len st \<le> len st1
    | Break (rb1, st1) \<Rightarrow> at_loop_head (trace st1) \<and> res st1 = 0 \<and> len st \<le> len st1
    | Returned e (rb1, st1) \<Rightarrow> e = Return (- 2) \<and> stopped_on_failure (trace st1))"
  by (auto simp: flush_chunk_def Let_def log_event_def at_loop_head_def stopped_on_failure_def
      rbuf_flush_def butlast_append split: prod.splits)

lemma read_chunk_shape:
  "at_loop_head (trace st) \<Longrightarrow>
   (case read_chunk env fd expected use_expected st of
      Continue st1 \<Rightarrow> at_loop_head (trace st1)
    | Break st1 \<Rightarrow> stopped_on_read st1
    | Returned e st1 \<Rightarrow>
        (e = Return (- 2) \<and> stopped_on_failure (trace st1)) \<or> (e = Null_deref \<and> st1 = st))"
  by (auto simp: read_chunk_def Let_def log_event_def at_loop_head_def stopped_on_failure_def
      stopped_on_read_def butlast_append split: prod.splits)

lemma flush_loop_shape:
  "at_loop_head (trace st) \<Longrightarrow> flush_loop env rb need_flush st = (x, nf, st') \<Longrightarrow>
   (case x of
      None \<Rightarrow> at_loop_head (trace st') \<and> res st' = 0 \<and> len st \<le> len st'
    | Some e \<Rightarrow> e = Return (- 2) \<and> stopped_on_failure (trace st'))"
proof (induction env rb need_flush st rule: flush_loop.induct)
  case (1 env rb need_flush st)
  show ?case
  proof (cases "flush_chunk env rb st")
    case (Continue p)
    obtain rb1 st1 where p: "p = (rb1, st1)" by (cases p)
    from flush_chunk_shape [OF "1.prems"(1), of env rb] Continue p
    have head1: "at_loop_head (trace st1)" and le: "len st \<le> len st1" by simp_all
    from "1.prems"(2) Continue p have "flush_loop env rb1 True st1 = (x, nf, st')"
      by (simp add: flush_loop.simps [of env rb])
    from "1.IH" [OF Continue p [symmetric] head1 this] le show ?thesis
      by (auto split: option.splits)
  next
    case (Break p)
    with flush_chunk_shape [OF "1.prems"(1), of env rb] "1.prems"(2) show ?thesis
      by (auto simp: flush_loop.simps [of env rb] split: prod.splits)
  next
    case (Returned e p)
    with flush_chunk_shape [OF "1.prems"(1), of env rb] "1.prems"(2) show ?thesis
      by (auto simp: flush_loop.simps [of env rb] split: prod.splits)
  qed
qed

lemma main_loop_shape:
  "at_loop_head (trace st) \<Longrightarrow> main_loop fuel env fd expected use_expected st = (x, st') \<Longrightarrow>
   (case x of
      None \<Rightarrow> at_loop_head (trace st') \<or> stopped_on_read st'
    | Some (Return c) \<Rightarrow> c = - 2 \<and> stopped_on_failure (trace st')
    | Some e \<Rightarrow> at_loop_head (trace st'))"
proof (induction fuel arbitrary: st)
  case 0
  then show ?case by (auto split: if_splits)
next
  case (Suc fuel)
  show ?case
  proof (cases "\<not> use_expected \<or> len st < expected")
    case False
    with Suc.prems show ?thesis by auto
  next
    case cond: True
    show ?thesis
    proof (cases "read_chunk env fd expected use_expected st")
      case (Continue st1)
      with read_chunk_shape [OF Suc.prems(1), of env fd expected use_expected]
      have head1: "at_loop_head (trace st1)" by simp
      from Suc.prems(2) cond Continue
      have "main_loop fuel env fd expected use_expected st1 = (x, st')" by simp
      from Suc.IH [OF head1 this] show ?thesis .
    next
      case (Break st1)
      with read_chunk_shape [OF Suc.prems(1), of env fd expected use_expected] Suc.prems(2) cond
      show ?thesis by auto
    next
      case (Returned e st1)
      with read_chunk_shape [OF Suc.prems(1), of env fd expected use_expected] Suc.prems cond
      show ?thesis by auto
    qed
  qed
qed


lemma flush_loop_no_reads:
  "no_reads (trace st) \<Longrightarrow> flush_loop env rb need_flush st = (x, nf, st') \<Longrightarrow>
   no_reads (trace st')"
proof (induction env rb need_flush st rule: flush_loop.induct)
  case (1 env rb need_flush st)
  show ?case
  proof (cases "flush_chunk env rb st")
    case (Continue p)
    obtain rb1 st1 where p: "p = (rb1, st1)" by (cases p)
    from flush_chunk_no_reads [OF "1.prems"(1), of env rb] Continue p
    have nr: "no_reads (trace st1)" by simp
    from "1.prems"(2) Continue p have "flush_loop env rb1 True st1 = (x, nf, st')"
      by (simp add: flush_loop.simps [of env rb])
    from "1.IH" [OF Continue p [symmetric] nr this] show ?thesis .
  next
    case (Break p)
    with flush_chunk_no_reads [OF "1.prems"(1), of env rb] "1.prems"(2) show ?thesis
      by (auto simp: flush_loop.simps [of env rb] split: prod.splits)
  next
    case (Returned e p)
    with flush_chunk_no_reads [OF "1.prems"(1), of env rb] "1.prems"(2) show ?thesis
      by (auto simp: flush_loop.simps [of env rb] split: prod.splits)
  qed
qed

lemma flush_phase_no_reads:
  "no_reads (trace st) \<Longrightarrow> flush_phase env fd st = (x, st') \<Longrightarrow> no_reads (trace st')"
  by (auto simp: flush_phase_def Let_def log_event_def no_reads_def
      split: option.splits if_splits prod.splits dest!: flush_loop_no_reads [rotated])

lemma flush_phase_shape:
  assumes "at_loop_head (trace st)" and "flush_phase env fd st = (x, st')"
  shows "case x of
           None \<Rightarrow> at_loop_head (trace st') \<and> (res st' = res st \<or> res st' = 0) \<and> len st \<le> len st'
         | Some e \<Rightarrow> e = Return (- 2) \<and> stopped_on_failure (trace st')"
proof (cases "rbuf st")
  case None
  with assms show ?thesis by (simp add: flush_phase_def)
next
  case (Some rb)
  show ?thesis
  proof (cases "rbuf_fd rb = fd")
    case False
    with Some assms show ?thesis by (simp add: flush_phase_def)
  next
    case True
    obtain returned need_flush st1 where fl: "flush_loop env rb False st = (returned, need_flush, st1)"
      by (cases "flush_loop env rb False st")
    note shape = flush_loop_shape [OF assms(1) fl]
    show ?thesis
    proof (cases returned)
      case (Some e)
      with shape assms(2) \<open>rbuf st = Some rb\<close> True fl show ?thesis
        by (auto simp: flush_phase_def)
    next
      case None
      with shape have head1: "at_loop_head (trace st1)" and "res st1 = 0" and "len st \<le> len st1"
        by simp_all
      with assms(2) \<open>rbuf st = Some rb\<close> True fl None show ?thesis
        by (auto simp: flush_phase_def Let_def log_event_def at_loop_head_def butlast_append
            stopped_on_failure_def split: if_splits)
    qed
  qed
qed

lemma main_loop_skip:
  "use_expected \<Longrightarrow> expected \<le> len st \<Longrightarrow>
   main_loop fuel env fd expected use_expected st = (None, st)"
  by (cases fuel) simp_all

lemma write_failed_no_read: "write_failed ev \<Longrightarrow> read_result ev = None"
  by (cases ev) simp_all

lemma get_contents_shape:
  assumes "get_contents fuel env fd restval expected rbuf0 use_expected w = (ex, st)"
  shows "(ex = Return (- 2) \<and> stopped_on_failure (trace st))
       \<or> ((ex = Null_deref \<or> ex = Out_of_fuel) \<and> at_loop_head (trace st))
       \<or> (\<exists>st3. finished env ex st3 st)"
proof -
  define st0 where "st0 = \<lparr>len = restval, res = 0, rbuf = rbuf0, world = w, trace = []\<rparr>"
  define st1 where
    "st1 = (if opt_verbose env then log_event (Progress_create restval expected) st0 else st0)"
  have head1: "at_loop_head (trace st1)"
    by (simp add: st1_def st0_def log_event_def at_loop_head_def)
  obtain x st2 where fp: "flush_phase env fd st1 = (x, st2)"
    by (cases "flush_phase env fd st1")
  note shape2 = flush_phase_shape [OF head1 fp]
  show ?thesis
  proof (cases x)
    case (Some e)
    with assms fp shape2 show ?thesis
      by (simp add: get_contents_def st0_def [symmetric] st1_def [symmetric])
  next
    case None
    with shape2 have head2: "at_loop_head (trace st2)" by simp
    obtain y st3 where ml: "main_loop fuel env fd expected use_expected st2 = (y, st3)"
      by (cases "main_loop fuel env fd expected use_expected st2")
    note shape3 = main_loop_shape [OF head2 ml]
    show ?thesis
    proof (cases y)
      case (Some e)
      with assms fp None ml shape3 show ?thesis
        by (cases e) (auto simp: get_contents_def st0_def [symmetric] st1_def [symmetric])
    next
      case noexit: None
      with assms fp None ml shape3 have "finished env ex st3 st"
        by (auto simp: get_contents_def st0_def [symmetric] st1_def [symmetric] Let_def
            finished_def log_event_def)
      then show ?thesis by blast
    qed
  qed
qed


lemma set_butlast_last: "tr \<noteq> [] \<Longrightarrow> set tr = insert (last tr) (set (butlast tr))"
  by (induction tr) auto

lemma stopped_on_failure_facts:
  assumes "stopped_on_failure tr"
  shows "tr \<noteq> []" and "write_failed (last tr)"
    and "\<And>ev k. ev \<in> set tr \<Longrightarrow> read_result ev = Some k \<Longrightarrow> 0 < k"
    and "\<And>ev. ev \<in> set (butlast tr) \<Longrightarrow> \<not> write_failed ev"
    and "\<exists>ev \<in> set tr. write_failed ev"
  using assms set_butlast_last [of tr] write_failed_no_read [of "last tr"]
  by (auto simp: stopped_on_failure_def at_loop_head_def)

lemma at_loop_head_facts:
  assumes "at_loop_head tr"
  shows "Ferror True \<notin> set tr" and "tr = [] \<or> \<not> write_failed (last tr)"
    and "\<And>ev k. ev \<in> set tr \<Longrightarrow> read_result ev = Some k \<Longrightarrow> 0 < k"
    and "Progress_finish \<notin> set tr"
    and "\<And>ev. ev \<in> set tr \<Longrightarrow> \<not> write_failed ev"
  using assms by (auto simp: at_loop_head_def)

lemma stopped_on_read_facts:
  assumes "stopped_on_read st"
  shows "Ferror True \<notin> set (trace st)" and "trace st \<noteq> []"
    and "\<not> write_failed (last (trace st))" and "res st \<le> 0"
    and "\<And>ev k. ev \<in> set (trace st) \<Longrightarrow> read_result ev = Some k \<Longrightarrow> k \<le> 0 \<Longrightarrow> k = res st"
    and "\<And>ev. ev \<in> set (trace st) \<Longrightarrow> \<not> write_failed ev"
proof -
  from assms have ne: "trace st \<noteq> []" and head: "at_loop_head (butlast (trace st))"
    and rd: "read_result (last (trace st)) = Some (res st)" and le: "res st \<le> 0"
    by (simp_all add: stopped_on_read_def)
  note split = set_butlast_last [OF ne]
  show "trace st \<noteq> []" by (rule ne)
  show "res st \<le> 0" by (rule le)
  show last_ok: "\<not> write_failed (last (trace st))"
    using rd write_failed_no_read [of "last (trace st)"] by auto
  show "\<not> write_failed ev" if "ev \<in> set (trace st)" for ev
    using that split last_ok at_loop_head_facts(5) [OF head, of ev] by auto
  have "last (trace st) \<noteq> Ferror True"
    using rd by auto
  then show "Ferror True \<notin> set (trace st)"
    using split at_loop_head_facts(1) [OF head] by auto
  show "k = res st" if "ev \<in> set (trace st)" "read_result ev = Some k" "k \<le> 0" for ev k
    using that split rd at_loop_head_facts(3) [OF head, of ev k] by auto
qed

lemma get_contents_eof:
  assumes "get_contents fuel env fd restval expected rbuf0 use_expected w = (ex, st)"
    and "ev \<in> set (trace st)" and "read_result ev = Some k" and "k \<le> 0"
  shows "ex = Return (if k < - 1 then - 1 else k)"
  using get_contents_shape [OF assms(1)]
proof (elim disjE conjE exE)
  assume "stopped_on_failure (trace st)"
  from stopped_on_failure_facts(3) [OF this assms(2,3)] assms(4) show ?thesis by simp
next
  assume "at_loop_head (trace st)"
  from at_loop_head_facts(3) [OF this assms(2,3)] assms(4) show ?thesis by simp
next
  assume "at_loop_head (trace st)"
  from at_loop_head_facts(3) [OF this assms(2,3)] assms(4) show ?thesis by simp
next
  fix st3 assume fin: "finished env ex st3 st"
  then have tr: "trace st = trace st3 @ (if opt_verbose env then [Progress_finish] else [])"
    and ex: "ex = Return (if res st3 < - 1 then - 1 else res st3)"
    and alt: "at_loop_head (trace st3) \<or> stopped_on_read st3"
    by (simp_all add: finished_def)
  from assms(2,3) tr have mem: "ev \<in> set (trace st3)"
    by (auto split: if_splits)
  from alt show ?thesis
  proof
    assume "at_loop_head (trace st3)"
    from at_loop_head_facts(3) [OF this mem assms(3)] assms(4) show ?thesis by simp
  next
    assume "stopped_on_read st3"
    from stopped_on_read_facts(5) [OF this mem assms(3,4)] ex show ?thesis by simp
  qed
qed

lemma get_contents_write_error:
  assumes "get_contents fuel env fd restval expected rbuf0 use_expected w = (ex, st)"
  shows "(ex = Return (- 2)) = (trace st \<noteq> [] \<and> write_failed (last (trace st)))"
    and "Ferror True \<in> set (trace st) \<Longrightarrow> ex = Return (- 2)"
    and "ex = Return c \<Longrightarrow> - 2 \<le> c"
  using get_contents_shape [OF assms]
  by (auto simp: finished_def dest: stopped_on_failure_facts(1,2) at_loop_head_facts(1,2)
      stopped_on_read_facts(1,2,3,4) split: if_splits)

lemma get_contents_failed_write:
  assumes "get_contents fuel env fd restval expected rbuf0 use_expected w = (ex, st)"
  shows "(ex = Return (- 2)) = (\<exists>ev \<in> set (trace st). write_failed ev)"
    and "\<forall>ev \<in> set (butlast (trace st)). \<not> write_failed ev"
proof -
  have clean: "\<forall>ev \<in> set (trace st). \<not> write_failed ev" if "finished env ex st3 st" for st3
  proof -
    from that have tr: "trace st = trace st3 @ (if opt_verbose env then [Progress_finish] else [])"
      and alt: "at_loop_head (trace st3) \<or> stopped_on_read st3"
      by (simp_all add: finished_def)
    from alt have "\<forall>ev \<in> set (trace st3). \<not> write_failed ev"
      using at_loop_head_facts(5) [of "trace st3"] stopped_on_read_facts(6) [of st3] by blast
    with tr show ?thesis by (auto split: if_splits)
  qed
  have not_failed: "ex \<noteq> Return (- 2)" if "finished env ex st3 st" for st3
    using that stopped_on_read_facts(4) [of st3]
    by (auto simp: finished_def split: if_splits)
  from get_contents_shape [OF assms]
  show "(ex = Return (- 2)) = (\<exists>ev \<in> set (trace st). write_failed ev)"
    using clean not_failed stopped_on_failure_facts(5) [of "trace st"]
      at_loop_head_facts(5) [of "trace st"]
    by auto
  from get_contents_shape [OF assms]
  show "\<forall>ev \<in> set (butlast (trace st)). \<not> write_failed ev"
    using clean stopped_on_failure_facts(4) [of "trace st"] at_loop_head_facts(5) [of "trace st"]
    by (auto dest: in_set_butlastD)
qed

lemma flush_chunk_no_short:
  "no_short_writes (trace st) \<Longrightarrow>
   (case flush_chunk env rb st of
      Continue (rb1, st1) \<Rightarrow> no_short_writes (trace st1)
    | Break (rb1, st1) \<Rightarrow> no_short_writes (trace st1)
    | Returned e (rb1, st1) \<Rightarrow> no_short_writes (trace st1))"
  by (auto simp: flush_chunk_def Let_def log_event_def no_short_writes_def split: prod.splits)

lemma flush_loop_no_short:
  "no_short_writes (trace st) \<Longrightarrow> flush_loop env rb need_flush st = (x, nf, st') \<Longrightarrow>
   no_short_writes (trace st')"
proof (induction env rb need_flush st rule: flush_loop.induct)
  case (1 env rb need_flush st)
  show ?case
  proof (cases "flush_chunk env rb st")
    case (Continue p)
    obtain rb1 st1 where p: "p = (rb1, st1)" by (cases p)
    from flush_chunk_no_short [OF "1.prems"(1), of env rb] Continue p
    have nr: "no_short_writes (trace st1)" by simp
    from "1.prems"(2) Continue p have "flush_loop env rb1 True st1 = (x, nf, st')"
      by (simp add: flush_loop.simps [of env rb])
    from "1.IH" [OF Continue p [symmetric] nr this] show ?thesis .
  next
    case (Break p)
    with flush_chunk_no_short [OF "1.prems"(1), of env rb] "1.prems"(2) show ?thesis
      by (auto simp: flush_loop.simps [of env rb] split: prod.splits)
  next
    case (Returned e p)
    with flush_chunk_no_short [OF "1.prems"(1), of env rb] "1.prems"(2) show ?thesis
      by (auto simp: flush_loop.simps [of env rb] split: prod.splits)
  qed
qed

lemma flush_phase_no_short:
  "no_short_writes (trace st) \<Longrightarrow> flush_phase env fd st = (x, st') \<Longrightarrow>
   no_short_writes (trace st')"
  by (auto simp: flush_phase_def Let_def log_event_def no_short_writes_def
      split: option.splits if_splits prod.splits dest!: flush_loop_no_short [rotated])

lemma write_then_test_no_short:
  assumes "\<forall>n w. fst (fwrite env n w) < n \<longrightarrow> ferror env (fflush env (snd (fwrite env n w)))"
    and "no_short_writes tr"
  shows "ferror env (fflush env (snd (fwrite env n w)))
         \<or> no_short_writes (tr @ [Fwrite n (fst (fwrite env n w)), Fflush, Ferror False])
           \<and> no_short_writes (tr @ [Fwrite n (fst (fwrite env n w)), Fflush, Ferror False,
                 Progress_update r])"
  using assms by (auto simp: no_short_writes_def)

lemma read_chunk_no_short:
  assumes "\<forall>n w. fst (fwrite env n w) < n \<longrightarrow> ferror env (fflush env (snd (fwrite env n w)))"
    and "no_short_writes (trace st)"
  shows "case read_chunk env fd expected use_expected st of
           Continue st1 \<Rightarrow> no_short_writes (trace st1)
         | Break st1 \<Rightarrow> no_short_writes (trace st1)
         | Returned e st1 \<Rightarrow> e = Return (- 2) \<or> no_short_writes (trace st1)"
proof (cases "HAVE_SSL env \<and> rbuf st = None")
  case True
  with assms(2) show ?thesis by (simp add: read_chunk_def Let_def)
next
  case False
  define amount where "amount = (if use_expected then MIN_of (expected - len st) 8192 else 8192)"
  define ssl where
    "ssl = (HAVE_SSL env \<and> (case rbuf st of None \<Rightarrow> False | Some rb \<Rightarrow> rbuf_ssl rb))"
  obtain r w1 where rd:
    "(if ssl then ssl_iread env amount (world st) else iread env fd amount (world st)) = (r, w1)"
    by (cases "if ssl then ssl_iread env amount (world st) else iread env fd amount (world st)")
  define ev where "ev = (if ssl then Ssl_iread amount r else Iread fd amount r)"
  have clean1: "no_short_writes (trace st @ [ev])"
    using assms(2) by (simp add: ev_def no_short_writes_def)
  show ?thesis
  proof (cases "0 < r")
    case False
    with \<open>\<not> (HAVE_SSL env \<and> rbuf st = None)\<close> rd clean1 show ?thesis
      by (auto simp: read_chunk_def Let_def amount_def [symmetric] ssl_def [symmetric]
          ev_def log_event_def)
  next
    case True
    note step = write_then_test_no_short [OF assms(1) clean1, of "nat r" w1 r]
    with True \<open>\<not> (HAVE_SSL env \<and> rbuf st = None)\<close> rd show ?thesis
      by (auto simp: read_chunk_def Let_def amount_def [symmetric] ssl_def [symmetric]
          ev_def log_event_def split_beta)
  qed
qed

lemma main_loop_no_short:
  assumes "\<forall>n w. fst (fwrite env n w) < n \<longrightarrow> ferror env (fflush env (snd (fwrite env n w)))"
  shows "no_short_writes (trace st) \<Longrightarrow>
         main_loop fuel env fd expected use_expected st = (x, st') \<Longrightarrow>
         x = Some (Return (- 2)) \<or> no_short_writes (trace st')"
proof (induction fuel arbitrary: st)
  case 0
  then show ?case by (auto split: if_splits)
next
  case (Suc fuel)
  show ?case
  proof (cases "\<not> use_expected \<or> len st < expected")
    case False
    with Suc.prems show ?thesis by auto
  next
    case cond: True
    note step = read_chunk_no_short [OF assms Suc.prems(1), of fd expected use_expected]
    show ?thesis
    proof (cases "read_chunk env fd expected use_expected st")
      case (Continue st1)
      with step have clean: "no_short_writes (trace st1)" by simp
      from Suc.prems(2) cond Continue
      have "main_loop fuel env fd expected use_expected st1 = (x, st')" by simp
      from Suc.IH [OF clean this] show ?thesis .
    next
      case (Break st1)
      with step Suc.prems(2) cond show ?thesis by auto
    next
      case (Returned e st1)
      with step Suc.prems(2) cond show ?thesis by auto
    qed
  qed
qed

lemma get_contents_no_short:
  assumes "\<forall>n w. fst (fwrite env n w) < n \<longrightarrow> ferror env (fflush env (snd (fwrite env n w)))"
    and "get_contents fuel env fd restval expected rbuf0 use_expected w = (ex, st)"
  shows "ex = Return (- 2) \<or> no_short_writes (trace st)"
proof -
  define st0 where "st0 = \<lparr>len = restval, res = 0, rbuf = rbuf0, world = w, trace = []\<rparr>"
  define st1 where
    "st1 = (if opt_verbose env then log_event (Progress_create restval expected) st0 else st0)"
  have clean1: "no_short_writes (trace st1)"
    by (simp add: st1_def st0_def log_event_def no_short_writes_def)
  obtain x st2 where fp: "flush_phase env fd st1 = (x, st2)"
    by (cases "flush_phase env fd st1")
  note clean2 = flush_phase_no_short [OF clean1 fp]
  show ?thesis
  proof (cases x)
    case (Some e)
    with assms(2) fp clean2 show ?thesis
      by (simp add: get_contents_def st0_def [symmetric] st1_def [symmetric])
  next
    case None
    obtain y st3 where ml: "main_loop fuel env fd expected use_expected st2 = (y, st3)"
      by (cases "main_loop fuel env fd expected use_expected st2")
    note clean3 = main_loop_no_short [OF assms(1) clean2 ml]
    show ?thesis
    proof (cases y)
      case (Some e)
      with assms(2) fp None ml clean3 show ?thesis
        by (auto simp: get_contents_def st0_def [symmetric] st1_def [symmetric])
    next
      case noexit: None
      with assms(2) fp None ml clean3 show ?thesis
        by (auto simp: get_contents_def st0_def [symmetric] st1_def [symmetric] Let_def
            log_event_def no_short_writes_def split: if_splits)
    qed
  qed
qed

lemma get_contents_nothing_expected:
  assumes "get_contents fuel env fd restval 0 rbuf0 True w = (ex, st)" and "0 \<le> restval"
  shows "no_reads (trace st)" and "ex = Return 0 \<or> ex = Return (- 2)"
proof -
  define st0 where "st0 = \<lparr>len = restval, res = 0, rbuf = rbuf0, world = w, trace = []\<rparr>"
  define st1 where
    "st1 = (if opt_verbose env then log_event (Progress_create restval 0) st0 else st0)"
  have head1: "at_loop_head (trace st1)" and nr1: "no_reads (trace st1)"
    and res1: "res st1 = 0" and len1: "len st1 = restval"
    by (simp_all add: st1_def st0_def log_event_def at_loop_head_def no_reads_def)
  obtain x st2 where fp: "flush_phase env fd st1 = (x, st2)"
    by (cases "flush_phase env fd st1")
  note shape2 = flush_phase_shape [OF head1 fp]
  note nr2 = flush_phase_no_reads [OF nr1 fp]
  have "no_reads (trace st) \<and> (ex = Return 0 \<or> ex = Return (- 2))"
  proof (cases x)
    case (Some e)
    with assms fp shape2 nr2 show ?thesis
      by (auto simp: get_contents_def st0_def [symmetric] st1_def [symmetric])
  next
    case None
    with shape2 res1 len1 assms(2) have "res st2 = 0" and "0 \<le> len st2" by auto
    with assms(1) fp None nr2 show ?thesis
      by (auto simp: get_contents_def st0_def [symmetric] st1_def [symmetric] main_loop_skip
          Let_def log_event_def no_reads_def split: if_splits)
  qed
  then show "no_reads (trace st)" and "ex = Return 0 \<or> ex = Return (- 2)" by simp_all
qed

lemma get_contents_no_buffer:
  assumes "get_contents fuel env fd restval 0 rbuf0 True w = (ex, st)" and "0 \<le> restval"
    and "\<forall>rb. rbuf0 = Some rb \<longrightarrow> rbuf_fd rb \<noteq> fd"
  shows "ex = Return 0" and "world st = w" and "len st = restval"
  using assms
  by (auto simp: get_contents_def flush_phase_def main_loop_skip Let_def log_event_def
      split: option.splits if_splits)

lemma get_contents_progress_finish:
  assumes "get_contents fuel env fd restval expected rbuf0 use_expected w = (ex, st)"
  shows "ex = Return (- 2) \<Longrightarrow> Progress_finish \<notin> set (trace st)"
    and "ex = Return c \<Longrightarrow> c \<noteq> - 2 \<Longrightarrow>
         count_list (trace st) Progress_finish = (if opt_verbose env then 1 else 0)"
  using get_contents_shape [OF assms]
proof -
  have absent: "Progress_finish \<notin> set tr" if "stopped_on_failure tr" for tr
    using that set_butlast_last [of tr]
    by (cases "last tr") (auto simp: stopped_on_failure_def at_loop_head_def)
  have absent3: "Progress_finish \<notin> set (trace st3)"
    if "at_loop_head (trace st3) \<or> stopped_on_read st3" for st3 :: "'a gc_state"
    using that set_butlast_last [of "trace st3"]
    by (cases "last (trace st3)") (auto simp: stopped_on_read_def at_loop_head_def)
  note shape = get_contents_shape [OF assms]
  show "Progress_finish \<notin> set (trace st)" if "ex = Return (- 2)"
    using shape that absent by (auto simp: finished_def split: if_splits)
  show "count_list (trace st) Progress_finish = (if opt_verbose env then 1 else 0)"
    if "ex = Return c" "c \<noteq> - 2"
    using shape that absent3 by (auto simp: finished_def count_list_0_iff)
qed

text \<open>
  C3. In every run of \<^verbatim>\<open>get_contents\<close>, bounded by any fuel: once a read has
  returned 0 the function returns 0 (with \<^verbatim>\<open>use_expected\<close> clear or set). It
  returns -2 exactly when it has found a write to have failed, by a short
  \<^verbatim>\<open>fwrite\<close> at line 95 or by \<^verbatim>\<open>ferror\<close> reporting the error indicator set;
  that call is then the last one it made, so nothing is read, written or reported
  after the failure, and no failure is passed over. Where a short \<^verbatim>\<open>fwrite\<close> sets
  the error indicator of the stream, as that of the C library does, a short
  \<^verbatim>\<open>fwrite\<close> at line 128 also makes it return -2. A read that returned a negative
  value makes it return -1, and no return code is below -2. With
  \<^verbatim>\<open>use_expected\<close> set, \<^verbatim>\<open>expected\<close> 0 and a \<^verbatim>\<open>restval\<close> that is not negative
  it reads nothing, and returns 0 unless emptying the read buffer hits a failed
  write, which makes it return -2; with no read buffer for \<^verbatim>\<open>fd\<close> it returns 0 and
  leaves the world and \<^verbatim>\<open>*len\<close> as they were.
\<close>

theorem get_contents_return_codes:
  assumes "get_contents fuel env fd restval expected rbuf0 use_expected w = (ex, st)"
  shows "(\<forall>ev \<in> set (trace st). read_result ev = Some 0 \<longrightarrow> ex = Return 0)
       \<and> (ex = Return (- 2)) = (\<exists>ev \<in> set (trace st). write_failed ev)
       \<and> (ex = Return (- 2)) = (trace st \<noteq> [] \<and> write_failed (last (trace st)))
       \<and> (\<forall>ev \<in> set (butlast (trace st)). \<not> write_failed ev)
       \<and> (\<forall>n written. Fwrite_checked n written \<in> set (trace st) \<and> written < n \<longrightarrow>
            ex = Return (- 2))
       \<and> (Ferror True \<in> set (trace st) \<longrightarrow> ex = Return (- 2))
       \<and> ((\<forall>n w. fst (fwrite env n w) < n \<longrightarrow> ferror env (fflush env (snd (fwrite env n w)))) \<longrightarrow>
            (\<forall>n written. Fwrite n written \<in> set (trace st) \<and> written < n \<longrightarrow> ex = Return (- 2)))
       \<and> (\<forall>ev \<in> set (trace st). \<forall>k. read_result ev = Some k \<and> k < 0 \<longrightarrow> ex = Return (- 1))
       \<and> (\<forall>c. ex = Return c \<longrightarrow> - 2 \<le> c)
       \<and> (use_expected \<and> expected = 0 \<and> 0 \<le> restval \<longrightarrow>
            (\<forall>ev \<in> set (trace st). read_result ev = None)
            \<and> ex = (if \<exists>ev \<in> set (trace st). write_failed ev then Return (- 2) else Return 0))
       \<and> (use_expected \<and> expected = 0 \<and> 0 \<le> restval
            \<and> (\<forall>rb. rbuf0 = Some rb \<longrightarrow> rbuf_fd rb \<noteq> fd) \<longrightarrow>
            ex = Return 0 \<and> world st = w \<and> len st = restval)"
proof -
  have eof: "\<forall>ev \<in> set (trace st). read_result ev = Some 0 \<longrightarrow> ex = Return 0"
    using get_contents_eof [OF assms, where k = 0] by auto
  have neg: "\<forall>ev \<in> set (trace st). \<forall>k. read_result ev = Some k \<and> k < 0 \<longrightarrow> ex = Return (- 1)"
  proof (intro ballI allI impI)
    fix ev k assume "ev \<in> set (trace st)" and "read_result ev = Some k \<and> k < 0"
    with get_contents_eof [OF assms, of ev k] show "ex = Return (- 1)"
      by (auto split: if_splits)
  qed
  note failed = get_contents_failed_write [OF assms]
  have checked: "\<forall>n written. Fwrite_checked n written \<in> set (trace st) \<and> written < n \<longrightarrow>
      ex = Return (- 2)"
  proof (intro allI impI)
    fix n written assume "Fwrite_checked n written \<in> set (trace st) \<and> written < n"
    then have "\<exists>ev \<in> set (trace st). write_failed ev"
      by (intro bexI [of _ "Fwrite_checked n written"]) simp_all
    with failed(1) show "ex = Return (- 2)" by simp
  qed
  have dropped: "\<forall>n written. Fwrite n written \<in> set (trace st) \<and> written < n \<longrightarrow> ex = Return (- 2)"
    if "\<forall>n w. fst (fwrite env n w) < n \<longrightarrow> ferror env (fflush env (snd (fwrite env n w)))"
  proof (intro allI impI)
    fix n written assume ev: "Fwrite n written \<in> set (trace st) \<and> written < n"
    from get_contents_no_short [OF that assms] show "ex = Return (- 2)"
    proof
      assume "no_short_writes (trace st)"
      with ev have "\<not> short_write (Fwrite n written)"
        unfolding no_short_writes_def by blast
      with ev show ?thesis by simp
    qed
  qed
  have zero: "(\<forall>ev \<in> set (trace st). read_result ev = None)
      \<and> ex = (if \<exists>ev \<in> set (trace st). write_failed ev then Return (- 2) else Return 0)"
    if "use_expected \<and> expected = 0 \<and> 0 \<le> restval"
    using get_contents_nothing_expected [of fuel env fd restval rbuf0 w ex st] assms that failed(1)
    by (auto simp: no_reads_def)
  have plain: "ex = Return 0 \<and> world st = w \<and> len st = restval"
    if "use_expected \<and> expected = 0 \<and> 0 \<le> restval
        \<and> (\<forall>rb. rbuf0 = Some rb \<longrightarrow> rbuf_fd rb \<noteq> fd)"
    using get_contents_no_buffer [of fuel env fd restval rbuf0 w ex st] assms that
    by simp
  note codes = get_contents_write_error [OF assms]
  have bound: "\<forall>c. ex = Return c \<longrightarrow> - 2 \<le> c"
    using codes(3) by blast
  have set_error: "Ferror True \<in> set (trace st) \<longrightarrow> ex = Return (- 2)"
    using codes(2) by blast
  show ?thesis
    apply (intro conjI)
    subgoal by (rule eof)
    subgoal by (rule failed(1))
    subgoal by (rule codes(1))
    subgoal by (rule failed(2))
    subgoal by (rule checked)
    subgoal by (rule set_error)
    subgoal using dropped by blast
    subgoal by (rule neg)
    subgoal by (rule bound)
    subgoal using zero by blast
    subgoal using plain by blast
    done
qed

theorem get_contents_return_codes_witness:
  "fst (get_contents (Suc (Suc (Suc 0))) (counting_io False 2 0 5) 3 0 0 None False 0) = Return 0
   \<and> Iread 3 8192 0
       \<in> set (trace (snd (get_contents (Suc (Suc (Suc 0))) (counting_io False 2 0 5) 3 0 0 None False 0)))
   \<and> get_contents (Suc (Suc (Suc 0))) (counting_io False 1 (- 5) 5) 3 0 0 None False 0
       = (Return (- 1),
          \<lparr>len = 10, res = - 1, rbuf = None, world = 2,
           trace = [Iread 3 8192 10, Fwrite 10 10, Fflush, Ferror False, Iread 3 8192 (- 5)]\<rparr>)
   \<and> get_contents (Suc (Suc (Suc 0))) (counting_io False 2 0 1) 3 0 0 None False 0
       = (Return (- 2),
          \<lparr>len = 10, res = 10, rbuf = None, world = 2,
           trace = [Iread 3 8192 10, Fwrite 10 10, Fflush, Ferror False,
                    Iread 3 8192 10, Fwrite 10 0, Fflush, Ferror True]\<rparr>)
   \<and> get_contents 0 (counting_io False 2 0 5) 3 7 0 None True 0
       = (Return 0, \<lparr>len = 7, res = 0, rbuf = None, world = 0, trace = []\<rparr>)
   \<and> get_contents 0 (counting_io False 0 0 5) 3 7 0
         (Some \<lparr>rbuf_fd = 3, rbuf_ssl = False, buffer_left = 5\<rparr>) True 0
       = (Return 0,
          \<lparr>len = 12, res = 0, rbuf = Some \<lparr>rbuf_fd = 3, rbuf_ssl = False, buffer_left = 0\<rparr>,
           world = 0,
           trace = [Rbuf_flush 5, Fwrite_checked 5 5, Rbuf_flush 0, Fflush, Ferror False]\<rparr>)"
proof -
  have a: "get_contents (Suc (Suc (Suc 0))) (counting_io False 2 0 5) 3 0 0 None False 0
       = (Return 0,
          \<lparr>len = 20, res = 0, rbuf = None, world = 3,
           trace = [Iread 3 8192 10, Fwrite 10 10, Fflush, Ferror False,
                    Iread 3 8192 10, Fwrite 10 10, Fflush, Ferror False, Iread 3 8192 0]\<rparr>)"
    by (simp add: get_contents_def flush_phase_def read_chunk_def counting_io_def log_event_def)
  have b: "get_contents (Suc (Suc (Suc 0))) (counting_io False 1 (- 5) 5) 3 0 0 None False 0
       = (Return (- 1),
          \<lparr>len = 10, res = - 1, rbuf = None, world = 2,
           trace = [Iread 3 8192 10, Fwrite 10 10, Fflush, Ferror False, Iread 3 8192 (- 5)]\<rparr>)"
    by (simp add: get_contents_def flush_phase_def read_chunk_def counting_io_def log_event_def)
  have c: "get_contents (Suc (Suc (Suc 0))) (counting_io False 2 0 1) 3 0 0 None False 0
       = (Return (- 2),
          \<lparr>len = 10, res = 10, rbuf = None, world = 2,
           trace = [Iread 3 8192 10, Fwrite 10 10, Fflush, Ferror False,
                    Iread 3 8192 10, Fwrite 10 0, Fflush, Ferror True]\<rparr>)"
    by (simp add: get_contents_def flush_phase_def read_chunk_def counting_io_def log_event_def)
  have d: "get_contents 0 (counting_io False 2 0 5) 3 7 0 None True 0
       = (Return 0, \<lparr>len = 7, res = 0, rbuf = None, world = 0, trace = []\<rparr>)"
    by (simp add: get_contents_def flush_phase_def counting_io_def)
  have e: "get_contents 0 (counting_io False 0 0 5) 3 7 0
         (Some \<lparr>rbuf_fd = 3, rbuf_ssl = False, buffer_left = 5\<rparr>) True 0
       = (Return 0,
          \<lparr>len = 12, res = 0, rbuf = Some \<lparr>rbuf_fd = 3, rbuf_ssl = False, buffer_left = 0\<rparr>,
           world = 0,
           trace = [Rbuf_flush 5, Fwrite_checked 5 5, Rbuf_flush 0, Fflush, Ferror False]\<rparr>)"
    by (simp add: get_contents_def flush_phase_def flush_loop.simps flush_chunk_def rbuf_flush_def
        counting_io_def log_event_def)
  show ?thesis
    using get_contents_return_codes [OF a, THEN conjunct1] a b c d e
    by simp
qed

text \<open>
  With \<^verbatim>\<open>use_expected\<close> set and \<^verbatim>\<open>expected\<close> 0, a run whose first write of the
  buffered bytes fails returns -2, having read nothing; and a run started with
  \<^verbatim>\<open>restval\<close> -5 reads from the connection.
\<close>

theorem get_contents_nothing_expected_fails:
  "get_contents 0 (counting_io False 0 0 0) 3 0 0
       (Some \<lparr>rbuf_fd = 3, rbuf_ssl = False, buffer_left = 5\<rparr>) True 1
     = (Return (- 2),
        \<lparr>len = 0, res = 5, rbuf = Some \<lparr>rbuf_fd = 3, rbuf_ssl = False, buffer_left = 0\<rparr>,
         world = 1, trace = [Rbuf_flush 5, Fwrite_checked 5 0]\<rparr>)
   \<and> get_contents (Suc 0) (counting_io False 0 0 5) 3 (- 5) 0 None True 0
     = (Return 0, \<lparr>len = - 5, res = 0, rbuf = None, world = 1, trace = [Iread 3 5 0]\<rparr>)"
  by (simp add: get_contents_def flush_phase_def flush_loop.simps flush_chunk_def rbuf_flush_def
      read_chunk_def MIN_of_def counting_io_def log_event_def)

text \<open>
  C4. With \<^verbatim>\<open>opt.verbose\<close> set, a run that returns a code other than -2 has called
  \<^verbatim>\<open>progress_finish\<close> exactly once; a run that returns -2 has not called it at
  all, since each \<^verbatim>\<open>return -2\<close> leaves the function before the call at line 145.
\<close>

theorem get_contents_progress_finish_skipped:
  assumes "get_contents fuel env fd restval expected rbuf0 use_expected w = (ex, st)"
  shows "(ex = Return (- 2) \<longrightarrow> Progress_finish \<notin> set (trace st))
       \<and> (\<forall>c. ex = Return c \<and> c \<noteq> - 2 \<longrightarrow>
            count_list (trace st) Progress_finish = (if opt_verbose env then 1 else 0))"
  using get_contents_progress_finish [OF assms] by blast

theorem get_contents_progress_finish_skipped_witness:
  "get_contents (Suc 0) (counting_io True 1 0 0) 3 0 0 None False 0
     = (Return (- 2),
        \<lparr>len = 0, res = 10, rbuf = None, world = 1,
         trace = [Progress_create 0 0, Iread 3 8192 10, Fwrite 10 0, Fflush, Ferror True]\<rparr>)
   \<and> Progress_finish
       \<notin> set (trace (snd (get_contents (Suc 0) (counting_io True 1 0 0) 3 0 0 None False 0)))"
proof -
  have run: "get_contents (Suc 0) (counting_io True 1 0 0) 3 0 0 None False 0
     = (Return (- 2),
        \<lparr>len = 0, res = 10, rbuf = None, world = 1,
         trace = [Progress_create 0 0, Iread 3 8192 10, Fwrite 10 0, Fflush, Ferror True]\<rparr>)"
    by (simp add: get_contents_def flush_phase_def read_chunk_def counting_io_def log_event_def)
  show ?thesis
    using get_contents_progress_finish_skipped [OF run] run by simp
qed

section \<open>Properties of retrieve_url\<close>

lemma store_Ptr: "store v (Ptr old) = Ptr v"
  by (simp add: store_def)

lemma call_http_loop_frame:
  "call_http_loop env u refurl dt proxy_url s = (r, s1) \<Longrightarrow>
   global_download_count s1 = global_download_count s \<and> loop_calls s1 = Suc (loop_calls s)"
  by (auto simp: call_http_loop_def loop_calls_def split: prod.splits)

lemma dispatch_frame:
  assumes "dispatch env u redirected refurl dt s = Inr ((result, mynewloc, local_file, dt1), s1)"
  shows "global_download_count s1 = global_download_count s"
    and "result = NEWLOCATION \<Longrightarrow> loop_calls s1 = Suc (loop_calls s)"
  using assms
  by (auto simp: dispatch_def loop_calls_def Let_def
      split: if_splits option.splits sum.splits prod.splits
      dest!: call_http_loop_frame)

lemma dispatch_early:
  "dispatch env u redirected refurl dt s = Inl (code, site) \<Longrightarrow>
   code = PROXERR \<and> site \<in> {At_no_proxy, At_proxy_parse, At_proxy_scheme}"
  by (auto simp: dispatch_def Let_def split: if_splits option.splits sum.splits prod.splits)

lemma register_frame: "global_download_count (register env url_str local_file dt s) = global_download_count s"
  by (simp add: register_def Let_def split: option.splits)

lemma retrieve_loop_count:
  "global_download_count
     (rr_state (retrieve_loop fuel env file newloc refurl url_str u redirections dt s))
   = global_download_count s
     + (if \<exists>code. rr_exit (retrieve_loop fuel env file newloc refurl url_str u redirections dt s)
                      = Returns code At_end
        then 1 else 0)"
proof (induction fuel arbitrary: url_str u redirections dt s)
  case 0
  show ?case by simp
next
  case (Suc fuel)
  show ?case
  proof (cases "dispatch env u (redirections \<noteq> None) refurl dt s")
    case (Inl early)
    then show ?thesis by (cases early) (auto dest: dispatch_early)
  next
    case (Inr ran)
    obtain result mynewloc local_file dt1 s1
      where ran: "ran = ((result, mynewloc, local_file, dt1), s1)"
      by (cases ran) auto
    note same = dispatch_frame(1) [OF Inr [unfolded ran]]
    show ?thesis
    proof (cases "result = NEWLOCATION")
      case False
      with Inr ran same show ?thesis
        by (simp add: Let_def register_frame)
    next
      case True
      show ?thesis
      proof (cases mynewloc)
        case None
        with Inr ran same True show ?thesis by simp
      next
        case (Some location)
        show ?thesis
        proof (cases "url_parse env (uri_merge env url_str location)")
          case (Inl up_error_code)
          with Inr ran same True Some show ?thesis by simp
        next
          case parsed: (Inr newloc_struct)
          show ?thesis
            using Inr ran same True Some parsed Suc.IH
            by (simp add: Let_def)
        qed
      qed
    qed
  qed
qed

lemma retrieve_loop_outputs:
  "(\<forall>code. rr_exit (retrieve_loop fuel env file newloc refurl url_str u redirections dt s)
              \<noteq> Returns code At_end) \<Longrightarrow>
   rr_file (retrieve_loop fuel env file newloc refurl url_str u redirections dt s) = file
   \<and> rr_newloc (retrieve_loop fuel env file newloc refurl url_str u redirections dt s) = newloc"
proof (induction fuel arbitrary: url_str u redirections dt s)
  case 0
  show ?case by simp
next
  case (Suc fuel)
  show ?case
  proof (cases "dispatch env u (redirections \<noteq> None) refurl dt s")
    case (Inl early)
    then show ?thesis by (cases early) (auto dest: dispatch_early)
  next
    case (Inr ran)
    obtain result mynewloc local_file dt1 s1
      where ran: "ran = ((result, mynewloc, local_file, dt1), s1)"
      by (cases ran) auto
    show ?thesis
    proof (cases "result = NEWLOCATION")
      case False
      with Inr ran Suc.prems show ?thesis
        by (simp add: Let_def)
    next
      case True
      show ?thesis
      proof (cases mynewloc)
        case None
        with Inr ran True show ?thesis by simp
      next
        case (Some location)
        show ?thesis
        proof (cases "url_parse env (uri_merge env url_str location)")
          case (Inl up_error_code)
          with Inr ran True Some show ?thesis by simp
        next
          case parsed: (Inr newloc_struct)
          show ?thesis
            using Inr ran True Some parsed Suc.IH Suc.prems
            by (simp add: Let_def split: if_splits)
        qed
      qed
    qed
  qed
qed

lemma retrieve_loop_end_newloc:
  "rr_exit (retrieve_loop fuel env file (Ptr old) refurl url_str u redirections dt s)
     = Returns code At_end \<Longrightarrow>
   \<exists>final. rr_newloc (retrieve_loop fuel env file (Ptr old) refurl url_str u redirections dt s)
             = Ptr (Some final)"
proof (induction fuel arbitrary: url_str u redirections dt s)
  case 0
  then show ?case by simp
next
  case (Suc fuel)
  show ?case
  proof (cases "dispatch env u (redirections \<noteq> None) refurl dt s")
    case (Inl early)
    with Suc.prems show ?thesis by (cases early) (auto dest: dispatch_early)
  next
    case (Inr ran)
    obtain result mynewloc local_file dt1 s1
      where ran: "ran = ((result, mynewloc, local_file, dt1), s1)"
      by (cases ran) auto
    show ?thesis
    proof (cases "result = NEWLOCATION")
      case False
      with Inr ran show ?thesis
        by (simp add: Let_def store_Ptr)
    next
      case True
      show ?thesis
      proof (cases mynewloc)
        case None
        with Inr ran True Suc.prems show ?thesis by simp
      next
        case (Some location)
        show ?thesis
        proof (cases "url_parse env (uri_merge env url_str location)")
          case (Inl up_error_code)
          with Inr ran True Some Suc.prems show ?thesis by simp
        next
          case parsed: (Inr newloc_struct)
          show ?thesis
            using Inr ran True Some parsed Suc.IH Suc.prems
            by (simp add: Let_def split: if_splits)
        qed
      qed
    qed
  qed
qed

text \<open>
  C1. Let the URL \<open>A\<close> parse to \<open>uA\<close>, let the protocol loop run for \<open>uA\<close> report a
  new location that parses to \<open>uB\<close>, a URL other than \<open>uA\<close>'s, and let the protocol
  loop run for \<open>uB\<close> report a new location that parses to the URL of \<open>uA\<close> again.
  Then with fuel for two protocol loops or more \<^verbatim>\<open>retrieve_url\<close> returns
  \<open>WRONGCODE\<close> from the cycle test, in the state the second protocol loop left: two
  protocol loops have run and no third. After the first of them the code goes round
  with a set of visited URLs that holds the URL of \<open>uA\<close> and the URL of \<open>uB\<close>:
  the set is made at the first redirection and the URL redirected from is in it.
\<close>

theorem retrieve_url_redirection_cycle:
  assumes "referer = (case refurl of None \<Rightarrow> opt_referer env | Some r \<Rightarrow> Some r)"
    and "dt_init = (case dt of None \<Rightarrow> indeterminate env | Some v \<Rightarrow> v)"
    and "url_parse env A = Inr uA"
    and "dispatch env uA False referer dt_init s = Inr ((NEWLOCATION, Some locB, fileA, dtA), sA)"
    and "url_parse env (uri_merge env A locB) = Inr uB"
    and "u_url uB \<noteq> u_url uA"
    and "dispatch env uB True referer dtA sA = Inr ((NEWLOCATION, Some locA, fileB, dtB), sB)"
    and "url_parse env (uri_merge env (u_url uB) locA) = Inr uA_again"
    and "u_url uA_again = u_url uA"
  shows "retrieve_url (Suc (Suc fuel)) env A file_out newloc_out refurl dt s
           = \<lparr>rr_exit = Returns WRONGCODE At_cycle, rr_file = store None file_out,
              rr_newloc = store None newloc_out, rr_dt = dtB, rr_state = sB\<rparr>
       \<and> retrieve_loop (Suc (Suc fuel)) env (store None file_out) (store None newloc_out) referer
             A uA None dt_init s
           = retrieve_loop (Suc fuel) env (store None file_out) (store None newloc_out) referer
               (u_url uB) uB (Some {u_url uA, u_url uB}) dtA sA
       \<and> loop_calls sB = loop_calls s + 2
       \<and> global_download_count sB = global_download_count s"
proof -
  have first: "retrieve_loop (Suc (Suc fuel)) env (store None file_out) (store None newloc_out) referer
             A uA None dt_init s
           = retrieve_loop (Suc fuel) env (store None file_out) (store None newloc_out) referer
               (u_url uB) uB (Some {u_url uA, u_url uB}) dtA sA"
    using assms(4,5,6) by (simp add: insert_commute)
  have second: "retrieve_loop (Suc fuel) env (store None file_out) (store None newloc_out) referer
               (u_url uB) uB (Some {u_url uA, u_url uB}) dtA sA
           = \<lparr>rr_exit = Returns WRONGCODE At_cycle, rr_file = store None file_out,
              rr_newloc = store None newloc_out, rr_dt = dtB, rr_state = sB\<rparr>"
    using assms(7,8,9) by simp
  have whole: "retrieve_url (Suc (Suc fuel)) env A file_out newloc_out refurl dt s
           = retrieve_loop (Suc (Suc fuel)) env (store None file_out) (store None newloc_out) referer
               A uA None dt_init s"
    using assms(3) unfolding assms(1,2)
    by (simp add: retrieve_url_def del: retrieve_loop.simps)
  from dispatch_frame [OF assms(4)] dispatch_frame [OF assms(7)]
  have "loop_calls sB = loop_calls s + 2" and "global_download_count sB = global_download_count s"
    by simp_all
  with first second whole show ?thesis by simp
qed

theorem retrieve_url_redirection_cycle_witness:
  "retrieve_url (Suc (Suc 0)) (scripted_env there_and_back []) ''http://a/''
     (Ptr (Some ''old'')) (Ptr (Some ''old'')) None None (start_state 0 0)
   = \<lparr>rr_exit = Returns WRONGCODE At_cycle, rr_file = Ptr None, rr_newloc = Ptr None, rr_dt = 0,
      rr_state =
        \<lparr>global_download_count = 0,
         outside = (\<lparr>quota = 0, downloaded = 200, downloaded_overflow = False\<rparr>, 2),
         calls = [Http_loop_call \<lparr>u_url = ''http://a/'', u_scheme = SCHEME_HTTP, u_host = ''host''\<rparr> None,
                  Http_loop_call \<lparr>u_url = ''http://b/'', u_scheme = SCHEME_HTTP, u_host = ''host''\<rparr> None]\<rparr>\<rparr>"
  using retrieve_url_redirection_cycle
    [where env = "scripted_env there_and_back []" and A = "''http://a/''"
       and refurl = None and referer = None and dt = None and dt_init = 0
       and s = "start_state 0 0"
       and uA = "\<lparr>u_url = ''http://a/'', u_scheme = SCHEME_HTTP, u_host = ''host''\<rparr>"
       and uB = "\<lparr>u_url = ''http://b/'', u_scheme = SCHEME_HTTP, u_host = ''host''\<rparr>"
       and uA_again = "\<lparr>u_url = ''http://a/'', u_scheme = SCHEME_HTTP, u_host = ''host''\<rparr>"
       and locB = "''http://b/''" and locA = "''http://a/''"
       and fileA = None and fileB = None and dtA = 0 and dtB = 0
       and sA = "\<lparr>global_download_count = 0,
                  outside = (\<lparr>quota = 0, downloaded = 100, downloaded_overflow = False\<rparr>, Suc 0),
                  calls = [Http_loop_call \<lparr>u_url = ''http://a/'', u_scheme = SCHEME_HTTP, u_host = ''host''\<rparr> None]\<rparr>"
       and sB = "\<lparr>global_download_count = 0,
                  outside = (\<lparr>quota = 0, downloaded = 200, downloaded_overflow = False\<rparr>, Suc (Suc 0)),
                  calls = [Http_loop_call \<lparr>u_url = ''http://a/'', u_scheme = SCHEME_HTTP, u_host = ''host''\<rparr> None,
                           Http_loop_call \<lparr>u_url = ''http://b/'', u_scheme = SCHEME_HTTP, u_host = ''host''\<rparr> None]\<rparr>"
       and fuel = 0 and file_out = "Ptr (Some ''old'')" and newloc_out = "Ptr (Some ''old'')"]
  by (simp add: scripted_env_def there_and_back_def start_state_def dispatch_def USE_PROXY_P_def
      call_http_loop_def downloaded_increase_def store_def)

text \<open>
  C2. \<^verbatim>\<open>retrieve_url\<close> adds one to \<^verbatim>\<open>global_download_count\<close> when it returns
  from the end of the function, whatever status the protocol loop reported, and
  leaves the counter as it was on every other way out: the failed parse of the URL,
  the three proxy errors, the failed parse of a new location, the redirection cycle.
\<close>

theorem retrieve_url_counts_at_end_only:
  "global_download_count (rr_state (retrieve_url fuel env origurl file newloc refurl dt s))
   = global_download_count s
     + (if \<exists>code. rr_exit (retrieve_url fuel env origurl file newloc refurl dt s)
                      = Returns code At_end
        then 1 else 0)"
  by (cases "url_parse env origurl") (simp_all add: retrieve_url_def retrieve_loop_count)

theorem retrieve_url_counts_at_end_only_witness:
  "global_download_count (rr_state (retrieve_url (Suc 0) (scripted_env Map.empty []) ''http://a/''
       (Ptr None) (Ptr None) None None (start_state 0 0))) = 1
   \<and> rr_exit (retrieve_url (Suc 0) (scripted_env Map.empty []) ''http://a/''
       (Ptr None) (Ptr None) None None (start_state 0 0)) = Returns RETROK At_end"
  using retrieve_url_counts_at_end_only
    [of "Suc 0" "scripted_env Map.empty []" "''http://a/''" "Ptr None" "Ptr None" None None
        "start_state 0 0"]
  by (simp add: retrieve_url_def scripted_env_def start_state_def dispatch_def USE_PROXY_P_def
      call_http_loop_def register_def store_def)

text \<open>
  A URL that does not parse: the call returns \<open>URLERROR\<close> at line 224 and the
  counter is not one more than before.
\<close>

theorem retrieve_url_parse_error_not_counted:
  "rr_exit (retrieve_url (Suc 0) (scripted_env Map.empty []) ''bad''
       (Ptr None) (Ptr None) None None (start_state 0 0)) = Returns URLERROR At_parse_error
   \<and> global_download_count (rr_state (retrieve_url (Suc 0) (scripted_env Map.empty []) ''bad''
       (Ptr None) (Ptr None) None None (start_state 0 0)))
     \<noteq> global_download_count (start_state 0 0) + 1"
  by (simp add: retrieve_url_def scripted_env_def start_state_def)

text \<open>
  C10. Called with pointers \<^verbatim>\<open>file\<close> and \<^verbatim>\<open>newloc\<close> that are not null,
  \<^verbatim>\<open>retrieve_url\<close> leaves both cells \<^verbatim>\<open>NULL\<close> on every way out but the end of
  the function, whatever they held before; a return from the end of the function has
  stored the final URL in \<^verbatim>\<open>*newloc\<close>.
\<close>

theorem retrieve_url_outputs_null_on_error:
  assumes "r = retrieve_url fuel env origurl (Ptr file0) (Ptr newloc0) refurl dt s"
  shows "((\<forall>code. rr_exit r \<noteq> Returns code At_end) \<longrightarrow>
            rr_file r = Ptr None \<and> rr_newloc r = Ptr None)
       \<and> (\<forall>code. rr_exit r = Returns code At_end \<longrightarrow> (\<exists>final. rr_newloc r = Ptr (Some final)))"
proof (cases "url_parse env origurl")
  case (Inl up_error_code)
  with assms show ?thesis by (simp add: retrieve_url_def store_Ptr)
next
  case (Inr u)
  with assms have r: "r = retrieve_loop fuel env (Ptr None) (Ptr None)
      (case refurl of None \<Rightarrow> opt_referer env | Some r \<Rightarrow> Some r) origurl u None
      (case dt of None \<Rightarrow> indeterminate env | Some v \<Rightarrow> v) s"
    by (simp add: retrieve_url_def store_Ptr)
  show ?thesis
    unfolding r
  proof (intro conjI impI allI)
    assume "\<forall>code. rr_exit (retrieve_loop fuel env (Ptr None) (Ptr None)
        (case refurl of None \<Rightarrow> opt_referer env | Some r \<Rightarrow> Some r) origurl u None
        (case dt of None \<Rightarrow> indeterminate env | Some v \<Rightarrow> v) s) \<noteq> Returns code At_end"
    from retrieve_loop_outputs [OF this]
    show "rr_file (retrieve_loop fuel env (Ptr None) (Ptr None)
        (case refurl of None \<Rightarrow> opt_referer env | Some r \<Rightarrow> Some r) origurl u None
        (case dt of None \<Rightarrow> indeterminate env | Some v \<Rightarrow> v) s) = Ptr None"
      and "rr_newloc (retrieve_loop fuel env (Ptr None) (Ptr None)
        (case refurl of None \<Rightarrow> opt_referer env | Some r \<Rightarrow> Some r) origurl u None
        (case dt of None \<Rightarrow> indeterminate env | Some v \<Rightarrow> v) s) = Ptr None"
      by simp_all
  next
    fix code
    assume "rr_exit (retrieve_loop fuel env (Ptr None) (Ptr None)
        (case refurl of None \<Rightarrow> opt_referer env | Some r \<Rightarrow> Some r) origurl u None
        (case dt of None \<Rightarrow> indeterminate env | Some v \<Rightarrow> v) s) = Returns code At_end"
    then show "\<exists>final. rr_newloc (retrieve_loop fuel env (Ptr None) (Ptr None)
        (case refurl of None \<Rightarrow> opt_referer env | Some r \<Rightarrow> Some r) origurl u None
        (case dt of None \<Rightarrow> indeterminate env | Some v \<Rightarrow> v) s) = Ptr (Some final)"
      by (rule retrieve_loop_end_newloc)
  qed
qed

theorem retrieve_url_outputs_null_on_error_witness:
  "rr_exit (retrieve_url (Suc (Suc 0)) (scripted_env there_and_back []) ''http://a/''
       (Ptr (Some ''old'')) (Ptr (Some ''old'')) None None (start_state 0 0))
     = Returns WRONGCODE At_cycle
   \<and> rr_file (retrieve_url (Suc (Suc 0)) (scripted_env there_and_back []) ''http://a/''
       (Ptr (Some ''old'')) (Ptr (Some ''old'')) None None (start_state 0 0)) = Ptr None
   \<and> rr_newloc (retrieve_url (Suc (Suc 0)) (scripted_env there_and_back []) ''http://a/''
       (Ptr (Some ''old'')) (Ptr (Some ''old'')) None None (start_state 0 0)) = Ptr None"
proof -
  have run: "rr_exit (retrieve_url (Suc (Suc 0)) (scripted_env there_and_back []) ''http://a/''
       (Ptr (Some ''old'')) (Ptr (Some ''old'')) None None (start_state 0 0))
     = Returns WRONGCODE At_cycle"
    by (simp add: retrieve_url_def scripted_env_def there_and_back_def start_state_def
        dispatch_def USE_PROXY_P_def call_http_loop_def store_def)
  show ?thesis
    using retrieve_url_outputs_null_on_error [OF refl, of "Suc (Suc 0)"
        "scripted_env there_and_back []" "''http://a/''" "Some ''old''" "Some ''old''" None None
        "start_state 0 0"] run
    by simp
qed

section \<open>Properties of retrieve_from_file\<close>

lemma url_loop_count:
  "rf_exit (url_loop fuel env urls status count attempted s) = Rf_returns st \<Longrightarrow>
   \<exists>k \<le> length urls.
     rf_count (url_loop fuel env urls status count attempted s) = count + int k
     \<and> rf_attempted (url_loop fuel env urls status count attempted s) = attempted @ take k urls
     \<and> (k < length urls \<longrightarrow>
          st = QUOTEXC
          \<and> downloaded_exceeds_quota
                (fst (outside (rf_state (url_loop fuel env urls status count attempted s)))) \<noteq> 0)"
proof (induction urls arbitrary: status count attempted s)
  case Nil
  then show ?case by simp
next
  case (Cons cur_url rest)
  show ?case
  proof (cases "downloaded_exceeds_quota (fst (outside s)) \<noteq> 0")
    case True
    with Cons.prems have "st = QUOTEXC" by simp
    with True show ?thesis
      by (intro exI [of _ 0]) simp
  next
    case False
    define r where "r = retrieve_url fuel env cur_url (Ptr None) (Ptr None) None
                          (Some (indeterminate env)) s"
    show ?thesis
    proof (cases "rr_exit r")
      case Assert_failed
      with Cons.prems False show ?thesis by (simp add: r_def [symmetric] Let_def)
    next
      case No_fuel
      with Cons.prems False show ?thesis by (simp add: r_def [symmetric] Let_def)
    next
      case (Returns status1 site)
      define filename where "filename = (case rr_file r of Null_ptr \<Rightarrow> None | Ptr f \<Rightarrow> f)"
      define new_file where "new_file = (case rr_newloc r of Null_ptr \<Rightarrow> None | Ptr n \<Rightarrow> n)"
      obtain status2 s2 where rec:
        "(if opt_recursive env \<and> status1 = RETROK \<and> rr_dt r AND TEXTHTML env \<noteq> 0
          then recursive_retrieve env filename
                 (case new_file of None \<Rightarrow> cur_url | Some n \<Rightarrow> n) (rr_state r)
          else (status1, rr_state r)) = (status2, s2)"
        by (cases "if opt_recursive env \<and> status1 = RETROK \<and> rr_dt r AND TEXTHTML env \<noteq> 0
          then recursive_retrieve env filename
                 (case new_file of None \<Rightarrow> cur_url | Some n \<Rightarrow> n) (rr_state r)
          else (status1, rr_state r)")
      define s3 where "s3 = (case filename of
                             None \<Rightarrow> s2
                           | Some f \<Rightarrow>
                               if opt_delete_after env \<and> file_exists_p env f (outside s2)
                               then s2\<lparr>outside := unlink env f (outside s2)\<rparr>
                               else s2)"
      have step: "url_loop fuel env (cur_url # rest) status count attempted s
                    = url_loop fuel env rest status2 (count + 1) (attempted @ [cur_url]) s3"
        using False Returns rec
        by (simp add: r_def [symmetric] Let_def filename_def [symmetric] new_file_def [symmetric]
            s3_def [symmetric])
      from Cons.prems step
      have "rf_exit (url_loop fuel env rest status2 (count + 1) (attempted @ [cur_url]) s3)
              = Rf_returns st"
        by simp
      from Cons.IH [OF this] obtain k where k: "k \<le> length rest"
        "rf_count (url_loop fuel env rest status2 (count + 1) (attempted @ [cur_url]) s3)
           = count + 1 + int k"
        "rf_attempted (url_loop fuel env rest status2 (count + 1) (attempted @ [cur_url]) s3)
           = (attempted @ [cur_url]) @ take k rest"
        "k < length rest \<longrightarrow>
           st = QUOTEXC
           \<and> downloaded_exceeds_quota
                 (fst (outside (rf_state
                    (url_loop fuel env rest status2 (count + 1) (attempted @ [cur_url]) s3)))) \<noteq> 0"
        by blast
      show ?thesis
        unfolding step using k by (intro exI [of _ "Suc k"]) simp
    qed
  qed
qed

text \<open>
  C5. When \<^verbatim>\<open>retrieve_from_file\<close> returns, \<^verbatim>\<open>*count\<close> is the number of URLs it has
  handed to \<^verbatim>\<open>retrieve_url\<close>, and these are the first that many URLs of the list.
  When that is not the whole list, the quota test of the next URL has stopped the loop:
  the status is \<open>QUOTEXC\<close>, the quota is exceeded in the final state, and the URL
  whose test stopped the loop is not counted. In the loop, a URL met with the quota
  exceeded ends the loop with \<^verbatim>\<open>*count\<close> and the state as they are.
\<close>

theorem retrieve_from_file_count:
  assumes "r = retrieve_from_file fuel env file_name html s"
    and "rf_exit r = Rf_returns st"
    and "urls = fst (url_list_of env file_name html s)"
  shows "rf_count r = int (length (rf_attempted r))
       \<and> length (rf_attempted r) \<le> length urls
       \<and> rf_attempted r = take (length (rf_attempted r)) urls
       \<and> (length (rf_attempted r) < length urls \<longrightarrow>
            st = QUOTEXC \<and> downloaded_exceeds_quota (fst (outside (rf_state r))) \<noteq> 0)
       \<and> (\<forall>cur_url rest status count attempted s1.
            downloaded_exceeds_quota (fst (outside s1)) \<noteq> 0 \<longrightarrow>
            url_loop fuel env (cur_url # rest) status count attempted s1
              = \<lparr>rf_exit = Rf_returns QUOTEXC, rf_count = count, rf_attempted = attempted,
                 rf_state = s1\<rparr>)"
proof -
  obtain w1 where list: "url_list_of env file_name html s = (urls, w1)"
    using assms(3) by (cases "url_list_of env file_name html s") simp
  define s1 where "s1 = s\<lparr>outside := recursive_reset env w1\<rparr>"
  have r: "r = url_loop fuel env urls RETROK 0 [] s1"
    using assms(1) list by (simp add: retrieve_from_file_def s1_def)
  from assms(2) have "rf_exit (url_loop fuel env urls RETROK 0 [] s1) = Rf_returns st"
    by (simp add: r)
  from url_loop_count [OF this] obtain k where k: "k \<le> length urls"
    "rf_count r = int k" "rf_attempted r = take k urls"
    "k < length urls \<longrightarrow>
       st = QUOTEXC \<and> downloaded_exceeds_quota (fst (outside (rf_state r))) \<noteq> 0"
    unfolding r by auto
  from k(1,3) have "length (rf_attempted r) = k" by simp
  with k show ?thesis by simp
qed

theorem retrieve_from_file_count_witness:
  "retrieve_from_file (Suc 0)
     (scripted_env Map.empty [''http://a/'', ''http://b/'', ''http://c/'', ''http://d/''])
     ''list'' False (start_state 150 0)
   = \<lparr>rf_exit = Rf_returns QUOTEXC, rf_count = 2,
      rf_attempted = [''http://a/'', ''http://b/''],
      rf_state =
        \<lparr>global_download_count = 2,
         outside = (\<lparr>quota = 150, downloaded = 200, downloaded_overflow = False\<rparr>, 2),
         calls = [Http_loop_call \<lparr>u_url = ''http://a/'', u_scheme = SCHEME_HTTP, u_host = ''host''\<rparr> None,
                  Register_download ''http://a/'' ''index.html'',
                  Http_loop_call \<lparr>u_url = ''http://b/'', u_scheme = SCHEME_HTTP, u_host = ''host''\<rparr> None,
                  Register_download ''http://b/'' ''index.html'']\<rparr>\<rparr>"
proof -
  have run: "retrieve_from_file (Suc 0)
     (scripted_env Map.empty [''http://a/'', ''http://b/'', ''http://c/'', ''http://d/''])
     ''list'' False (start_state 150 0)
   = \<lparr>rf_exit = Rf_returns QUOTEXC, rf_count = 2,
      rf_attempted = [''http://a/'', ''http://b/''],
      rf_state =
        \<lparr>global_download_count = 2,
         outside = (\<lparr>quota = 150, downloaded = 200, downloaded_overflow = False\<rparr>, 2),
         calls = [Http_loop_call \<lparr>u_url = ''http://a/'', u_scheme = SCHEME_HTTP, u_host = ''host''\<rparr> None,
                  Register_download ''http://a/'' ''index.html'',
                  Http_loop_call \<lparr>u_url = ''http://b/'', u_scheme = SCHEME_HTTP, u_host = ''host''\<rparr> None,
                  Register_download ''http://b/'' ''index.html'']\<rparr>\<rparr>"
    by (simp add: retrieve_from_file_def url_list_of_def retrieve_url_def scripted_env_def
        start_state_def dispatch_def USE_PROXY_P_def call_http_loop_def register_def store_def
        downloaded_exceeds_quota_def downloaded_increase_def)
  show ?thesis
    using retrieve_from_file_count [OF refl _ refl, of "Suc 0"
        "scripted_env Map.empty [''http://a/'', ''http://b/'', ''http://c/'', ''http://d/'']"
        "''list''" False "start_state 150 0" QUOTEXC] run
    by simp
qed

text \<open>
  Four URLs, a quota of 150 bytes and 100 bytes a download: the quota test of the third
  URL stops the loop, two URLs have been retrieved, and \<^verbatim>\<open>*count\<close> is not 3.
\<close>

theorem retrieve_from_file_stop_not_counted:
  "rf_exit (retrieve_from_file (Suc 0)
       (scripted_env Map.empty [''http://a/'', ''http://b/'', ''http://c/'', ''http://d/''])
       ''list'' False (start_state 150 0)) = Rf_returns QUOTEXC
   \<and> rf_attempted (retrieve_from_file (Suc 0)
       (scripted_env Map.empty [''http://a/'', ''http://b/'', ''http://c/'', ''http://d/''])
       ''list'' False (start_state 150 0)) = [''http://a/'', ''http://b/'']
   \<and> rf_count (retrieve_from_file (Suc 0)
       (scripted_env Map.empty [''http://a/'', ''http://b/'', ''http://c/'', ''http://d/''])
       ''list'' False (start_state 150 0)) \<noteq> 3"
  by (simp add: retrieve_from_file_def url_list_of_def retrieve_url_def scripted_env_def
      start_state_def dispatch_def USE_PROXY_P_def call_http_loop_def register_def store_def
      downloaded_exceeds_quota_def downloaded_increase_def)

end
